theory Spec2Isabelle
  imports Main "HOL-Library.Multiset" "HOL-Library.Product_Lexorder"
begin

section \<open>Shallow embedding of the generator\<close>

text \<open>
  The development models two translation units: \<^verbatim>\<open>satgirgs/source/Generator.cpp\<close>
  (weight and position sampling, edge sampling, edge deduplication) and
  \<^verbatim>\<open>hypergirgs/source/RadiusLayer.cpp\<close> (the counting-sort index over angular cells).

  Conventions. A C++ vector is a list. A function that can fail returns
  \<open>error + result\<close>, with \<open>Inl\<close> for the failure. A read or write outside a vector
  (undefined behaviour in C++) is the failure \<open>OutOfRange\<close>; a violated \<^verbatim>\<open>assert\<close> is
  \<open>AssertionFailed\<close>. A vector taken by non-const reference is returned, updated, next to
  the function's result. Node indices and counters are \<^verbatim>\<open>int\<close> in the source; they are
  modelled as unbounded integers, which agrees with the source as long as no counter
  exceeds \<open>2^31 - 1\<close>.
\<close>

datatype error = AssertionFailed | OutOfRange | LengthError

subsection \<open>Edge deduplication (Generator.cpp, deduplicateEdges)\<close>

type_synonym edge = "int \<times> int"
type_synonym weighted_edge = "int \<times> int \<times> int"

text \<open>
  The loop \<^verbatim>\<open>for(auto edge : edges)\<close> with its two locals \<^verbatim>\<open>last\<close> and \<^verbatim>\<open>run_length\<close>
  and the output vector \<^verbatim>\<open>new_edges\<close>. A triple is appended only when the current edge
  differs from \<^verbatim>\<open>last\<close>; nothing is appended after the loop.
\<close>

fun dedup_loop :: "edge \<Rightarrow> int \<Rightarrow> edge list \<Rightarrow> weighted_edge list \<Rightarrow> weighted_edge list" where
  "dedup_loop last_edge run_length [] new_edges = new_edges"
| "dedup_loop last_edge run_length (edge # edges) new_edges =
     (if edge = last_edge
      then dedup_loop edge (run_length + 1) edges new_edges
      else dedup_loop edge 1 edges (new_edges @ [(fst last_edge, snd last_edge, run_length)]))"

text \<open>
  \<^verbatim>\<open>sort(edges.begin(), edges.end())\<close> sorts the caller's vector in place with the
  lexicographic order of \<^verbatim>\<open>std::pair\<close>, which is the order of pairs of
  \<open>HOL-Library.Product_Lexorder\<close>. Then \<^verbatim>\<open>edges[0]\<close> is read without any test: on an
  empty vector that read is out of range. The result is the pair of the sorted vector
  (the argument after the call) and the returned vector.
\<close>

definition deduplicateEdges :: "edge list \<Rightarrow> error + (edge list \<times> weighted_edge list)" where
  "deduplicateEdges edges =
     (let sorted_edges = sort edges in
      case sorted_edges of
        [] \<Rightarrow> Inl OutOfRange
      | front # _ \<Rightarrow> Inr (sorted_edges, dedup_loop front 0 sorted_edges []))"

subsection \<open>The deduplication algorithm as the specification words it\<close>

text \<open>
  These definitions follow the specification, not the source: canonicalise each pair to
  (min, max), sort, and collapse each maximal run of equal pairs into one triple carrying
  the run length. \<open>prepend_run e n runs\<close> puts \<open>n\<close> more copies of \<open>e\<close> in front of an
  already collapsed list.
\<close>

definition canonicalize :: "edge \<Rightarrow> edge" where
  "canonicalize e = (min (fst e) (snd e), max (fst e) (snd e))"

fun prepend_run :: "edge \<Rightarrow> int \<Rightarrow> weighted_edge list \<Rightarrow> weighted_edge list" where
  "prepend_run e n [] = [(fst e, snd e, n)]"
| "prepend_run e n ((u, v, m) # runs) =
     (if (u, v) = e then (u, v, m + n) # runs else (fst e, snd e, n) # (u, v, m) # runs)"

fun collapse_runs :: "edge list \<Rightarrow> weighted_edge list" where
  "collapse_runs [] = []"
| "collapse_runs (e # es) = prepend_run e 1 (collapse_runs es)"

definition spec_deduplicate :: "edge list \<Rightarrow> weighted_edge list" where
  "spec_deduplicate edges = collapse_runs (sort (map canonicalize edges))"

definition expand_edges :: "weighted_edge list \<Rightarrow> edge list" where
  "expand_edges ws = concat (map (\<lambda>(u, v, m). replicate (nat m) (u, v)) ws)"

definition lex_le :: "edge \<Rightarrow> edge \<Rightarrow> bool" where
  "lex_le a b = (fst a < fst b \<or> (fst a = fst b \<and> snd a \<le> snd b))"



subsection \<open>The cell hierarchy used by RadiusLayer (AngleHelper)\<close>

text \<open>
  \<^verbatim>\<open>hypergirgs/AngleHelper.h\<close> is not among the sources. Its three static functions are
  taken as parameters, bundled in a record: nothing is assumed about them in the
  definitions, and every theorem states what it needs of them. Angles are \<^verbatim>\<open>double\<close> in
  the source and of an arbitrary type \<open>'a\<close> here, since they are only handed to
  \<^verbatim>\<open>cellForPoint\<close>. Levels, cells and counts are \<^verbatim>\<open>unsigned int\<close> in the source and
  natural numbers here.
\<close>

record 'a AngleHelper =
  numCellsInLevel :: "nat \<Rightarrow> nat"
  firstCellOfLevel :: "nat \<Rightarrow> nat"
  cellForPoint :: "'a \<Rightarrow> nat \<Rightarrow> nat"

subsection \<open>RadiusLayer (RadiusLayer.cpp)\<close>

text \<open>
  The members of the class. The type of a point (\<open>'p\<close>) and of a radius (\<open>'r\<close>) are left
  open: the code only stores and copies them.
\<close>

record ('r, 'p) RadiusLayer =
  m_r_min :: 'r
  m_r_max :: 'r
  m_target_level :: nat
  m_prefix_sums :: "nat list"
  m_points :: "'p list"

text \<open>
  First loop of the constructor: count the points of each cell. \<^verbatim>\<open>nodes\<close> holds indices
  into \<^verbatim>\<open>angles\<close> and \<^verbatim>\<open>points\<close>; an index outside \<^verbatim>\<open>angles\<close> is a read out of range
  (a negative \<^verbatim>\<open>int\<close> index is one too, so indices are natural numbers here). The
  assertion \<^verbatim>\<open>cell < cellsInLevel\<close> guards the increment.
\<close>

fun count_cells :: "'a AngleHelper \<Rightarrow> nat \<Rightarrow> 'a list \<Rightarrow> nat list \<Rightarrow> nat list \<Rightarrow> error + nat list" where
  "count_cells ah targetLevel angles [] prefix_sums = Inr prefix_sums"
| "count_cells ah targetLevel angles (node # nodes) prefix_sums =
     (if node < length angles then
        (let cell = cellForPoint ah (angles ! node) targetLevel in
         if cell < numCellsInLevel ah targetLevel
         then count_cells ah targetLevel angles nodes (prefix_sums[cell := prefix_sums ! cell + 1])
         else Inl AssertionFailed)
      else Inl OutOfRange)"

text \<open>
  Second loop: \<^verbatim>\<open>tmp = val; val = sum; sum += tmp\<close> over the whole vector, starting from
  \<^verbatim>\<open>sum = 0\<close>.
\<close>

fun exclusive_prefix_sums :: "nat \<Rightarrow> nat list \<Rightarrow> nat list" where
  "exclusive_prefix_sums running [] = []"
| "exclusive_prefix_sums running (val # vals) = running # exclusive_prefix_sums (running + val) vals"

text \<open>
  Third loop: the counting sort proper. Each point is written at
  \<^verbatim>\<open>m_prefix_sums[targetCell] + num_inserted[targetCell]\<close>; every vector access is
  guarded here by its range, the failure being \<open>OutOfRange\<close>.
\<close>

fun fill_points ::
  "'a AngleHelper \<Rightarrow> nat \<Rightarrow> 'a list \<Rightarrow> 'p list \<Rightarrow> nat list \<Rightarrow> nat list \<Rightarrow> 'p list \<Rightarrow> nat list \<Rightarrow> error + 'p list" where
  "fill_points ah targetLevel angles points prefix_sums [] pts num_inserted = Inr pts"
| "fill_points ah targetLevel angles points prefix_sums (node # nodes) pts num_inserted =
     (if node < length angles \<and> node < length points then
        (let targetCell = cellForPoint ah (angles ! node) targetLevel in
         if targetCell < length num_inserted \<and> targetCell < length prefix_sums \<and>
            prefix_sums ! targetCell + num_inserted ! targetCell < length pts
         then fill_points ah targetLevel angles points prefix_sums nodes
                (pts[prefix_sums ! targetCell + num_inserted ! targetCell := points ! node])
                (num_inserted[targetCell := num_inserted ! targetCell + 1])
         else Inl OutOfRange)
      else Inl OutOfRange)"

text \<open>
  The constructor. \<open>default_point\<close> is the value \<^verbatim>\<open>m_points.resize\<close> fills the vector
  with (the default constructor of \<^verbatim>\<open>Point\<close>, which is not among the sources).
  \<^verbatim>\<open>m_prefix_sums.back()\<close> is \<open>last\<close>; the vector has \<^verbatim>\<open>cellsInLevel + 1\<close> entries, so it
  is never empty.
\<close>

definition RadiusLayer_ctor ::
  "'a AngleHelper \<Rightarrow> 'p \<Rightarrow> 'r \<Rightarrow> 'r \<Rightarrow> nat \<Rightarrow> nat list \<Rightarrow> 'a list \<Rightarrow> 'p list \<Rightarrow> error + ('r, 'p) RadiusLayer" where
  "RadiusLayer_ctor ah default_point r_min r_max targetLevel nodes angles points =
     (let cellsInLevel = numCellsInLevel ah targetLevel in
      case count_cells ah targetLevel angles nodes (replicate (cellsInLevel + 1) 0) of
        Inl e \<Rightarrow> Inl e
      | Inr counts \<Rightarrow>
          (let prefix_sums = exclusive_prefix_sums 0 counts in
           case fill_points ah targetLevel angles points prefix_sums nodes
                  (replicate (last prefix_sums) default_point) (replicate cellsInLevel 0) of
             Inl e \<Rightarrow> Inl e
           | Inr pts \<Rightarrow>
               Inr \<lparr>m_r_min = r_min, m_r_max = r_max, m_target_level = targetLevel,
                    m_prefix_sums = prefix_sums, m_points = pts\<rparr>))"

text \<open>
  Arithmetic on \<^verbatim>\<open>unsigned int\<close> wraps modulo \<open>2^32\<close>. The wrap-around is written out
  for the products and sums of cell indices in the queries; \<^verbatim>\<open>x - 1\<close> is \<open>x + (2^32 - 1)\<close>
  modulo \<open>2^32\<close>. The two subtractions \<^verbatim>\<open>m_target_level - level\<close> and
  \<^verbatim>\<open>cell - firstCellOfLevel(level)\<close> come after the assertions that make them exact.
  Levels themselves are not wrapped (\<^verbatim>\<open>level + 1\<close> is far below \<open>2^32\<close>).
\<close>

definition u32 :: "nat \<Rightarrow> nat" where
  "u32 n = n mod 2 ^ 32"

text \<open>
  \<^verbatim>\<open>pointsInCell\<close>: the four assertions in the order of the source, then the reads of
  \<^verbatim>\<open>m_prefix_sums\<close> at \<^verbatim>\<open>end\<close>, \<^verbatim>\<open>begin\<close> and \<^verbatim>\<open>end + 1\<close>, each inside the
  vector or else out of range. The result is an \<^verbatim>\<open>int\<close>.
\<close>

definition pointsInCell :: "'a AngleHelper \<Rightarrow> ('r, 'p) RadiusLayer \<Rightarrow> nat \<Rightarrow> nat \<Rightarrow> error + int" where
  "pointsInCell ah layer cell level =
     (if \<not> level \<le> m_target_level layer then Inl AssertionFailed
      else if \<not> (firstCellOfLevel ah level \<le> cell \<and> cell < firstCellOfLevel ah (level + 1))
      then Inl AssertionFailed
      else
        (let descendants = numCellsInLevel ah (m_target_level layer - level);
             localIndexCell = cell - firstCellOfLevel ah level;
             localIndexDescendant = u32 (localIndexCell * descendants);
             begin_idx = localIndexDescendant;
             end_idx = u32 (begin_idx + descendants + (2 ^ 32 - 1))
         in if \<not> u32 (begin_idx + firstCellOfLevel ah level) < firstCellOfLevel ah (m_target_level layer + 1)
            then Inl AssertionFailed
            else if \<not> u32 (end_idx + firstCellOfLevel ah level) < firstCellOfLevel ah (m_target_level layer + 1)
            then Inl AssertionFailed
            else if begin_idx < length (m_prefix_sums layer) \<and> end_idx + 1 < length (m_prefix_sums layer)
            then Inr (int (m_prefix_sums layer ! end_idx) - int (m_prefix_sums layer ! begin_idx)
                      + (int (m_prefix_sums layer ! (end_idx + 1)) - int (m_prefix_sums layer ! end_idx)))
            else Inl OutOfRange))"

text \<open>
  \<^verbatim>\<open>kthPoint\<close>: two assertions, then \<^verbatim>\<open>m_points[m_prefix_sums[begin] + k]\<close> with \<^verbatim>\<open>k\<close>
  an \<^verbatim>\<open>int\<close>.
\<close>

definition kthPoint :: "'a AngleHelper \<Rightarrow> ('r, 'p) RadiusLayer \<Rightarrow> nat \<Rightarrow> nat \<Rightarrow> int \<Rightarrow> error + 'p" where
  "kthPoint ah layer cell level k =
     (if \<not> level \<le> m_target_level layer then Inl AssertionFailed
      else if \<not> (firstCellOfLevel ah level \<le> cell \<and> cell < firstCellOfLevel ah (level + 1))
      then Inl AssertionFailed
      else
        (let descendants = numCellsInLevel ah (m_target_level layer - level);
             localIndexCell = cell - firstCellOfLevel ah level;
             localIndexDescendant = u32 (localIndexCell * descendants);
             begin_idx = localIndexDescendant
         in if begin_idx < length (m_prefix_sums layer) \<and>
               0 \<le> int (m_prefix_sums layer ! begin_idx) + k \<and>
               nat (int (m_prefix_sums layer ! begin_idx) + k) < length (m_points layer)
            then Inr (m_points layer ! nat (int (m_prefix_sums layer ! begin_idx) + k))
            else Inl OutOfRange))"

subsection \<open>What the specification says about cells\<close>

text \<open>
  The finest-level cell of a node is the expression both loops of the constructor compute.
\<close>

definition finest_cell :: "'a AngleHelper \<Rightarrow> nat \<Rightarrow> 'a list \<Rightarrow> nat \<Rightarrow> nat" where
  "finest_cell ah targetLevel angles node = cellForPoint ah (angles ! node) targetLevel"

text \<open>
  A cell belongs to a level no finer than the target level: the condition the first two
  assertions of the queries state.
\<close>

definition cell_in_level :: "'a AngleHelper \<Rightarrow> nat \<Rightarrow> nat \<Rightarrow> nat \<Rightarrow> bool" where
  "cell_in_level ah targetLevel cell level \<longleftrightarrow>
     level \<le> targetLevel \<and> firstCellOfLevel ah level \<le> cell \<and> cell < firstCellOfLevel ah (level + 1)"

text \<open>
  Modelled from the spec: the descendant relation of the cell hierarchy (AngleHelper is
  missing). The specification gives the block of target-level descendants of a cell:
  it starts at (cell - firstCellOfLevel(level)) * numCellsInLevel(target_level - level) and
  has numCellsInLevel(target_level - level) cells.
\<close>

definition first_descendant :: "'a AngleHelper \<Rightarrow> nat \<Rightarrow> nat \<Rightarrow> nat \<Rightarrow> nat" where
  "first_descendant ah targetLevel cell level =
     (cell - firstCellOfLevel ah level) * numCellsInLevel ah (targetLevel - level)"

definition is_descendant :: "'a AngleHelper \<Rightarrow> nat \<Rightarrow> nat \<Rightarrow> nat \<Rightarrow> nat \<Rightarrow> bool" where
  "is_descendant ah targetLevel cell level c \<longleftrightarrow>
     first_descendant ah targetLevel cell level \<le> c \<and>
     c < first_descendant ah targetLevel cell level + numCellsInLevel ah (targetLevel - level)"

text \<open>
  Modelled from the spec: the contract of the cell hierarchy, as far as a query of one cell
  uses it (AngleHelper is missing). A cell has at least one descendant on the target level;
  its block of descendants lies inside the target level; cells are numbered level by level,
  coarser levels first, so that the cells of a level precede the end of the target level;
  and cell numbers fit an \<^verbatim>\<open>unsigned int\<close>.
\<close>

definition hierarchy_contract :: "'a AngleHelper \<Rightarrow> nat \<Rightarrow> nat \<Rightarrow> nat \<Rightarrow> bool" where
  "hierarchy_contract ah targetLevel cell level \<longleftrightarrow>
     0 < numCellsInLevel ah (targetLevel - level) \<and>
     first_descendant ah targetLevel cell level + numCellsInLevel ah (targetLevel - level)
       \<le> numCellsInLevel ah targetLevel \<and>
     firstCellOfLevel ah level + numCellsInLevel ah targetLevel \<le> firstCellOfLevel ah (targetLevel + 1) \<and>
     firstCellOfLevel ah (targetLevel + 1) < 2 ^ 32"

text \<open>
  The concrete scenario of the specification: a target level with three cells, and four
  points whose finest-level cells are 0, 0, 1, 2. Level \<open>l\<close> has \<open>l + 1\<close> cells, the levels
  are numbered one after the other (cell 0; cells 1, 2; cells 3, 4, 5), the target level is
  2, and the angle of a point is its cell. The points are 10, 11, 12, 13.
\<close>

definition scenario_hierarchy :: "nat AngleHelper" where
  "scenario_hierarchy =
     \<lparr>numCellsInLevel = (\<lambda>l. l + 1), firstCellOfLevel = (\<lambda>l. l * (l + 1) div 2),
      cellForPoint = (\<lambda>a l. a)\<rparr>"

definition scenario_layer :: "(unit, nat) RadiusLayer" where
  "scenario_layer =
     \<lparr>m_r_min = (), m_r_max = (), m_target_level = 2, m_prefix_sums = [0, 2, 3, 4],
      m_points = [10, 11, 12, 13]\<rparr>"


subsection \<open>Nodes (satgirgs/Node.h)\<close>

text \<open>
  The header that declares \<^verbatim>\<open>Node2D\<close> is not among the sources. The constructor call
  \<^verbatim>\<open>Node2D(positions[i], weights[i], indiceOffset + i)\<close> and the uses \<^verbatim>\<open>->index\<close>,
  \<^verbatim>\<open>.weight\<close> and \<^verbatim>\<open>.coord\<close> give the three fields. A \<^verbatim>\<open>double\<close> is a value
  of an arbitrary type \<open>'r\<close>. The member function \<^verbatim>\<open>weightedDistance\<close> and \<^verbatim>\<open>operator==\<close>
  are parameters of the functions that use them; a weighted distance is a value of a
  linearly ordered type (a \<^verbatim>\<open>double\<close> that is not NaN).
\<close>

record 'r Node2D =
  coord :: "'r list"
  weight :: 'r
  index :: int

subsection \<open>Edge sampling (Generator.cpp, generateEdges)\<close>

text \<open>
  \<^verbatim>\<open>std::min_element\<close> with a comparison: the first element is the candidate, and a later
  element replaces the candidate when the comparison puts it strictly before the
  candidate. On an empty range the result is the end iterator (\<open>None\<close>).
\<close>

fun min_element_from :: "('a \<Rightarrow> 'a \<Rightarrow> bool) \<Rightarrow> 'a \<Rightarrow> 'a list \<Rightarrow> 'a" where
  "min_element_from cmp smallest [] = smallest"
| "min_element_from cmp smallest (x # xs) =
     min_element_from cmp (if cmp x smallest then x else smallest) xs"

definition min_element :: "('a \<Rightarrow> 'a \<Rightarrow> bool) \<Rightarrow> 'a list \<Rightarrow> 'a option" where
  "min_element cmp xs = (case xs of [] \<Rightarrow> None | x # rest \<Rightarrow> Some (min_element_from cmp x rest))"

text \<open>
  The state the loop works on: the shared vector \<^verbatim>\<open>result\<close> and one buffer per thread
  (\<^verbatim>\<open>local_edges[tid].first\<close>; the padding array next to it carries no data).
\<close>

record edge_buffers =
  result :: "edge list"
  local_edges :: "edge list list"

definition block_size :: nat where
  "block_size = 2 ^ 20"

text \<open>
  \<^verbatim>\<open>flush\<close> appends a buffer to \<^verbatim>\<open>result\<close> under the lock. \<^verbatim>\<open>addEdge\<close> swaps the
  endpoints when \<^verbatim>\<open>u > v\<close>, appends the pair to the buffer of thread \<^verbatim>\<open>tid\<close> and, when
  the buffer has reached \<^verbatim>\<open>block_size\<close>, flushes and clears it. A thread number outside
  \<^verbatim>\<open>local_edges\<close> is an access out of range.
\<close>

definition flush :: "edge list \<Rightarrow> edge_buffers \<Rightarrow> edge_buffers" where
  "flush local st = st\<lparr>result := result st @ local\<rparr>"

definition addEdge :: "int \<Rightarrow> int \<Rightarrow> nat \<Rightarrow> edge_buffers \<Rightarrow> error + edge_buffers" where
  "addEdge u v tid st =
     (if tid < length (local_edges st) then
        (let e = (if u > v then (v, u) else (u, v));
             local = local_edges st ! tid @ [e]
         in if length local = block_size
            then Inr ((flush local st)\<lparr>local_edges := (local_edges st)[tid := []]\<rparr>)
            else Inr (st\<lparr>local_edges := (local_edges st)[tid := local]\<rparr>))
      else Inl OutOfRange)"

text \<open>
  The body of the loop for one clause: the two calls of \<^verbatim>\<open>std::min_element\<close> with the
  two lambdas of the source, then the edges of the mode. Dereferencing the end iterator
  (no non-clause node) is an access out of range.
\<close>

definition clause_body ::
  "('r Node2D \<Rightarrow> 'r Node2D \<Rightarrow> 'd::linorder) \<Rightarrow> ('r Node2D \<Rightarrow> 'r Node2D \<Rightarrow> bool) \<Rightarrow>
   'r Node2D list \<Rightarrow> bool \<Rightarrow> nat \<Rightarrow> nat \<Rightarrow> 'r Node2D \<Rightarrow> edge_buffers \<Rightarrow> error + edge_buffers" where
  "clause_body weightedDistance node_eq nc_nodes debugMode clauseIndex threadId cp st =
     (case min_element (\<lambda>a b. weightedDistance a cp < weightedDistance b cp) nc_nodes of
        None \<Rightarrow> Inl OutOfRange
      | Some nearest \<Rightarrow>
          (case min_element
                  (\<lambda>a b. if node_eq a nearest then False
                         else if node_eq b nearest then True
                         else weightedDistance a cp < weightedDistance b cp) nc_nodes of
             None \<Rightarrow> Inl OutOfRange
           | Some secondNearest \<Rightarrow>
               if debugMode then
                 (case addEdge (index nearest) (int (length nc_nodes) + int clauseIndex) threadId st of
                    Inl e \<Rightarrow> Inl e
                  | Inr st' \<Rightarrow>
                      addEdge (index secondNearest) (int (length nc_nodes) + int clauseIndex) threadId st')
               else addEdge (index nearest) (index secondNearest) threadId st))"

text \<open>
  The parallel loop. The OpenMP runtime decides which thread runs which iteration and how
  the iterations of different threads interleave: that decision is the parameter
  \<open>sched\<close>, the list of (clause index, thread number) in the order of execution. The only
  state shared between threads is \<^verbatim>\<open>result\<close>, which is changed under the lock, so an
  iteration is taken as one step.
\<close>

fun clause_loop ::
  "('r Node2D \<Rightarrow> 'r Node2D \<Rightarrow> 'd::linorder) \<Rightarrow> ('r Node2D \<Rightarrow> 'r Node2D \<Rightarrow> bool) \<Rightarrow>
   'r Node2D list \<Rightarrow> 'r Node2D list \<Rightarrow> bool \<Rightarrow> (nat \<times> nat) list \<Rightarrow> edge_buffers \<Rightarrow> error + edge_buffers" where
  "clause_loop weightedDistance node_eq c_nodes nc_nodes debugMode [] st = Inr st"
| "clause_loop weightedDistance node_eq c_nodes nc_nodes debugMode ((clauseIndex, threadId) # sched) st =
     (if clauseIndex < length c_nodes then
        (case clause_body weightedDistance node_eq nc_nodes debugMode clauseIndex threadId
                (c_nodes ! clauseIndex) st of
           Inl e \<Rightarrow> Inl e
         | Inr st' \<Rightarrow> clause_loop weightedDistance node_eq c_nodes nc_nodes debugMode sched st')
      else Inl OutOfRange)"

text \<open>
  \<^verbatim>\<open>generateEdges\<close>: \<open>max_threads\<close> is \<^verbatim>\<open>omp_get_max_threads()\<close>. After the loop
  every buffer is flushed, in the order of the threads.
\<close>

definition generateEdges ::
  "('r Node2D \<Rightarrow> 'r Node2D \<Rightarrow> 'd::linorder) \<Rightarrow> ('r Node2D \<Rightarrow> 'r Node2D \<Rightarrow> bool) \<Rightarrow>
   nat \<Rightarrow> (nat \<times> nat) list \<Rightarrow> 'r Node2D list \<Rightarrow> 'r Node2D list \<Rightarrow> bool \<Rightarrow> error + edge list" where
  "generateEdges weightedDistance node_eq max_threads sched c_nodes nc_nodes debugMode =
     (case clause_loop weightedDistance node_eq c_nodes nc_nodes debugMode sched
             \<lparr>result = [], local_edges = replicate max_threads []\<rparr> of
        Inl e \<Rightarrow> Inl e
      | Inr st \<Rightarrow> Inr (result (fold flush (local_edges st) st)))"

text \<open>
  A schedule of the loop over \<open>n\<close> clauses with \<open>max_threads\<close> threads runs every
  iteration exactly once, on a thread of the team.
\<close>

definition is_schedule :: "nat \<Rightarrow> nat \<Rightarrow> (nat \<times> nat) list \<Rightarrow> bool" where
  "is_schedule n max_threads sched \<longleftrightarrow>
     mset (map fst sched) = mset [0..<n] \<and> (\<forall>(i, t)\<in>set sched. t < max_threads)"

text \<open>
  The edges the shared vector and the buffers hold together.
\<close>

definition all_edges :: "edge_buffers \<Rightarrow> edge multiset" where
  "all_edges st = mset (result st) + mset (concat (local_edges st))"

subsection \<open>Edge sampling as the specification words it\<close>

text \<open>
  These definitions follow the specification, not the source. The first target of
  minimum distance; the nearest target of a source; the first minimum among the remaining
  targets, those that \<^verbatim>\<open>operator==\<close> does not identify with the nearest.
\<close>

definition first_min :: "('a \<Rightarrow> 'd::linorder) \<Rightarrow> 'a list \<Rightarrow> 'a option" where
  "first_min d xs = find (\<lambda>x. \<forall>y\<in>set xs. d x \<le> d y) xs"

definition spec_nearest ::
  "('r Node2D \<Rightarrow> 'r Node2D \<Rightarrow> 'd::linorder) \<Rightarrow> 'r Node2D list \<Rightarrow> 'r Node2D \<Rightarrow> 'r Node2D option" where
  "spec_nearest weightedDistance nc_nodes cp = first_min (\<lambda>t. weightedDistance t cp) nc_nodes"

definition spec_second_nearest ::
  "('r Node2D \<Rightarrow> 'r Node2D \<Rightarrow> 'd::linorder) \<Rightarrow> ('r Node2D \<Rightarrow> 'r Node2D \<Rightarrow> bool) \<Rightarrow>
   'r Node2D list \<Rightarrow> 'r Node2D \<Rightarrow> 'r Node2D \<Rightarrow> 'r Node2D option" where
  "spec_second_nearest weightedDistance node_eq nc_nodes cp nearest =
     first_min (\<lambda>t. weightedDistance t cp) (filter (\<lambda>t. \<not> node_eq t nearest) nc_nodes)"

text \<open>
  The edges one source contributes, each stored with the smaller endpoint first. Where no
  target remains beside the nearest, the second nearest is the first target: that is what
  the second call of \<^verbatim>\<open>std::min_element\<close> returns.
\<close>

definition source_edges ::
  "('r Node2D \<Rightarrow> 'r Node2D \<Rightarrow> 'd::linorder) \<Rightarrow> ('r Node2D \<Rightarrow> 'r Node2D \<Rightarrow> bool) \<Rightarrow>
   'r Node2D list \<Rightarrow> bool \<Rightarrow> nat \<Rightarrow> 'r Node2D \<Rightarrow> edge list" where
  "source_edges weightedDistance node_eq nc_nodes debugMode sourceRank cp =
     (case spec_nearest weightedDistance nc_nodes cp of
        None \<Rightarrow> []
      | Some nearest \<Rightarrow>
          (let secondNearest =
                 (case spec_second_nearest weightedDistance node_eq nc_nodes cp nearest of
                    Some s \<Rightarrow> s
                  | None \<Rightarrow> hd nc_nodes)
           in if debugMode
              then [canonicalize (index nearest, int (length nc_nodes) + int sourceRank),
                    canonicalize (index secondNearest, int (length nc_nodes) + int sourceRank)]
              else [canonicalize (index nearest, index secondNearest)]))"

text \<open>
  What keeps the two endpoints of an edge apart. In debug mode: every target index lies
  below the number of targets (the targets keep their natural indices). In normal mode:
  there are two targets or more, their indices are pairwise distinct, and \<^verbatim>\<open>operator==\<close>
  holds of two targets exactly when their indices are equal.
\<close>

definition targets_separate :: "('r Node2D \<Rightarrow> 'r Node2D \<Rightarrow> bool) \<Rightarrow> 'r Node2D list \<Rightarrow> bool \<Rightarrow> bool" where
  "targets_separate node_eq nc_nodes debugMode \<longleftrightarrow>
     (if debugMode then \<forall>t\<in>set nc_nodes. index t < int (length nc_nodes)
      else 2 \<le> length nc_nodes \<and> distinct (map index nc_nodes) \<and>
           (\<forall>a\<in>set nc_nodes. \<forall>b\<in>set nc_nodes. node_eq a b \<longleftrightarrow> index a = index b))"

text \<open>
  Concrete nodes for the examples: nodes on a line, at the position \<open>weight\<close>; the
  distance of two nodes is the distance of their positions, and two nodes are equal when
  their indices are.
\<close>

definition line_distance :: "int Node2D \<Rightarrow> int Node2D \<Rightarrow> int" where
  "line_distance a b = \<bar>weight a - weight b\<bar>"

definition index_eq :: "'r Node2D \<Rightarrow> 'r Node2D \<Rightarrow> bool" where
  "index_eq a b \<longleftrightarrow> index a = index b"

definition mk_node :: "int \<Rightarrow> int \<Rightarrow> int Node2D" where
  "mk_node w i = \<lparr>coord = [], weight = w, index = i\<rparr>"


subsection \<open>Weight and position sampling (Generator.cpp, generateWeights, generatePositions)\<close>

text \<open>
  The C++ standard library is not part of the sources. What the two functions use of it
  is a parameter: the construction of \<^verbatim>\<open>std::default_random_engine\<close> from a seed, one
  draw of \<^verbatim>\<open>std::uniform_real_distribution\<close> (the value and the engine after the draw),
  the floating-point expression of the weight
  \<^verbatim>\<open>std::pow((std::pow(0.5*n, -ple + 1) - 1) * u + 1, 1 / (-ple + 1))\<close> as a function of
  \<^verbatim>\<open>n\<close>, \<^verbatim>\<open>ple\<close> and the drawn \<^verbatim>\<open>u\<close>, and the value a new \<^verbatim>\<open>double\<close> in a vector has.
  A \<^verbatim>\<open>double\<close> is a value of an arbitrary type \<open>'r\<close>, an engine one of a type \<open>'g\<close>.
\<close>

record ('g, 'r) std_library =
  seed_engine :: "nat \<Rightarrow> 'g"
  uniform_real :: "'g \<Rightarrow> 'r \<times> 'g"
  power_law_weight :: "int \<Rightarrow> 'r \<Rightarrow> 'r \<Rightarrow> 'r"
  zero_double :: 'r

text \<open>
  What may differ between two runs of the same call: the number
  \<^verbatim>\<open>omp_get_max_threads()\<close> returns, the value \<^verbatim>\<open>std::random_device\<close> gives a thread,
  and the thread the runtime gives an iteration of a \<^verbatim>\<open>schedule(static)\<close> loop (as a
  function of the team size, the number of iterations and the iteration).
\<close>

record run_environment =
  omp_max_threads :: int
  random_device :: "nat \<Rightarrow> nat"
  static_thread :: "nat \<Rightarrow> nat \<Rightarrow> nat \<Rightarrow> nat"

text \<open>
  \<^verbatim>\<open>parallel ? std::max(1, std::min(omp_get_max_threads(), n / 10000)) : 1\<close>. The
  division is that of C++; it is only evaluated here for \<open>n \<ge> 0\<close>, where it agrees with
  \<open>div\<close>.
\<close>

definition sampling_threads :: "run_environment \<Rightarrow> int \<Rightarrow> bool \<Rightarrow> nat" where
  "sampling_threads env n parallel =
     (if parallel then nat (max 1 (min (omp_max_threads env) (n div 10000))) else 1)"

text \<open>
  Each thread of the team builds its own engine, from \<^verbatim>\<open>weightSeed + tid\<close> converted to
  \<^verbatim>\<open>unsigned\<close> when the seed is not negative, from the random device otherwise.
\<close>

definition thread_engines :: "('g, 'r) std_library \<Rightarrow> run_environment \<Rightarrow> int \<Rightarrow> nat \<Rightarrow> 'g list" where
  "thread_engines lib env seed threads =
     map (\<lambda>tid. seed_engine lib
                  (if seed \<ge> 0 then nat ((seed + int tid) mod 2 ^ 32) else random_device env tid))
       [0..<threads]"

text \<open>
  The loop \<^verbatim>\<open>for (int i = 0; i < n; ++i)\<close>. Every thread runs its iterations in
  increasing order, draws from its own engine and writes its own entries of \<^verbatim>\<open>result\<close>,
  so the iterations are run here in increasing order, each on the engine of its thread. A
  thread number is below the team size. The vector \<^verbatim>\<open>result\<close> of the source is \<open>res\<close>.
\<close>

fun weights_loop ::
  "('g, 'r) std_library \<Rightarrow> run_environment \<Rightarrow> nat \<Rightarrow> int \<Rightarrow> 'r \<Rightarrow> nat list \<Rightarrow> 'g list \<Rightarrow> 'r list \<Rightarrow> 'r list" where
  "weights_loop lib env threads n ple [] gens res = res"
| "weights_loop lib env threads n ple (i # iterations) gens res =
     (let tid = static_thread env threads (nat n) i mod threads;
          (u, gen') = uniform_real lib (gens ! tid)
      in weights_loop lib env threads n ple iterations (gens[tid := gen'])
           (res[i := power_law_weight lib n ple u]))"

text \<open>
  \<^verbatim>\<open>std::vector<double>(n)\<close> with a negative \<^verbatim>\<open>n\<close> asks for more elements than a vector
  can hold and throws \<^verbatim>\<open>std::length_error\<close>.
\<close>

definition generateWeights ::
  "('g, 'r) std_library \<Rightarrow> run_environment \<Rightarrow> int \<Rightarrow> 'r \<Rightarrow> int \<Rightarrow> bool \<Rightarrow> error + 'r list" where
  "generateWeights lib env n ple weightSeed parallel =
     (if n < 0 then Inl LengthError
      else
        (let threads = sampling_threads env n parallel
         in Inr (weights_loop lib env threads n ple [0..<nat n]
                   (thread_engines lib env weightSeed threads)
                   (replicate (nat n) (zero_double lib)))))"

text \<open>
  The inner loop over the dimensions, then the loop over the nodes, for
  \<^verbatim>\<open>generatePositions\<close>.
\<close>

fun fill_row :: "('g, 'r) std_library \<Rightarrow> nat list \<Rightarrow> 'g \<Rightarrow> 'r list \<Rightarrow> 'r list \<times> 'g" where
  "fill_row lib [] gen row = (row, gen)"
| "fill_row lib (d # ds) gen row =
     (let (u, gen') = uniform_real lib gen in fill_row lib ds gen' (row[d := u]))"

fun positions_loop ::
  "('g, 'r) std_library \<Rightarrow> run_environment \<Rightarrow> nat \<Rightarrow> int \<Rightarrow> int \<Rightarrow> nat list \<Rightarrow> 'g list \<Rightarrow> 'r list list \<Rightarrow> 'r list list" where
  "positions_loop lib env threads n dimension [] gens res = res"
| "positions_loop lib env threads n dimension (i # iterations) gens res =
     (let tid = static_thread env threads (nat n) i mod threads;
          (row, gen') = fill_row lib [0..<nat dimension] (gens ! tid) (res ! i)
      in positions_loop lib env threads n dimension iterations (gens[tid := gen'])
           (res[i := row]))"

definition generatePositions ::
  "('g, 'r) std_library \<Rightarrow> run_environment \<Rightarrow> int \<Rightarrow> int \<Rightarrow> int \<Rightarrow> bool \<Rightarrow> error + 'r list list" where
  "generatePositions lib env n dimension positionSeed parallel =
     (if dimension < 0 \<or> n < 0 then Inl LengthError
      else
        (let threads = sampling_threads env n parallel
         in Inr (positions_loop lib env threads n dimension [0..<nat n]
                   (thread_engines lib env positionSeed threads)
                   (replicate (nat n) (replicate (nat dimension) (zero_double lib))))))"

text \<open>
  A concrete library and two runs for the examples: the engine is a number, a draw gives
  the engine modulo 7 and moves the engine on; the two runs differ in every field.
\<close>

definition example_library :: "(nat, int) std_library" where
  "example_library =
     \<lparr>seed_engine = (\<lambda>s. s), uniform_real = (\<lambda>g. (int (g mod 7), 5 * g + 3)),
      power_law_weight = (\<lambda>n ple u. n + ple * u), zero_double = 0\<rparr>"

definition first_run :: run_environment where
  "first_run = \<lparr>omp_max_threads = 8, random_device = (\<lambda>tid. 17 + tid),
                static_thread = (\<lambda>threads n i. i * threads div (n + 1))\<rparr>"

definition second_run :: run_environment where
  "second_run = \<lparr>omp_max_threads = 2, random_device = (\<lambda>tid. 99),
                 static_thread = (\<lambda>threads n i. i)\<rparr>"


section \<open>Properties of edge deduplication\<close>

subsection \<open>Run collapsing\<close>

lemma prepend_run_twice: "prepend_run e n (prepend_run e m runs) = prepend_run e (m + n) runs"
  by (induction e m runs rule: prepend_run.induct) auto

lemma collapse_runs_Cons_shape:
  "\<exists>m rest. collapse_runs (e # es) = (fst e, snd e, m) # rest"
  by (cases "(e, 1::int, collapse_runs es)" rule: prepend_run.cases) auto

lemma prepend_run_other:
  "e \<noteq> l \<Longrightarrow> prepend_run l r (collapse_runs (e # es)) = (fst l, snd l, r) # collapse_runs (e # es)"
  using collapse_runs_Cons_shape[of e es] by (auto simp: prod_eq_iff)

lemma replicate_swap: "replicate m x @ replicate n x = replicate n x @ replicate m x"
  by (simp add: replicate_add[symmetric] add.commute)

lemma expand_prepend_run:
  "0 \<le> n \<Longrightarrow> \<forall>(u, v, m) \<in> set runs. 0 \<le> m \<Longrightarrow>
   expand_edges (prepend_run e n runs) = replicate (nat n) e @ expand_edges runs"
  by (induction e n runs rule: prepend_run.induct)
     (auto simp: expand_edges_def nat_add_distrib replicate_add replicate_swap)

lemma collapse_runs_pos: "\<forall>(u, v, m) \<in> set (collapse_runs es). 1 \<le> m"
proof (induction es)
  case (Cons e es)
  then show ?case
    by (cases "(e, 1::int, collapse_runs es)" rule: prepend_run.cases) auto
qed simp

text \<open>
  \<open>collapse_runs\<close> is a run-length encoding: expanding it gives the list back, and every
  multiplicity is positive.
\<close>

lemma expand_collapse_runs: "expand_edges (collapse_runs es) = es"
proof (induction es)
  case (Cons e es)
  have "\<forall>(u, v, m) \<in> set (collapse_runs es). 0 \<le> m"
    using collapse_runs_pos[of es] by fastforce
  then show ?case using Cons by (simp add: expand_prepend_run)
qed (simp add: expand_edges_def)

subsection \<open>The loop against the run collapsing\<close>

text \<open>
  The loop holds one pending run (\<^verbatim>\<open>last\<close>, \<^verbatim>\<open>run_length\<close>). What it has appended, followed
  by exactly one more triple, is the collapsed list of the pending run and the rest of the
  input.
\<close>

lemma dedup_loop_runs:
  "\<exists>pending. acc @ prepend_run l r (collapse_runs es) = dedup_loop l r es acc @ [pending]"
proof (induction es arbitrary: l r acc)
  case Nil
  show ?case by simp
next
  case (Cons e es)
  show ?case
  proof (cases "e = l")
    case True
    from Cons.IH[of acc l "r + 1"] True show ?thesis
      by (simp add: prepend_run_twice add.commute)
  next
    case False
    from Cons.IH[of "acc @ [(fst l, snd l, r)]" e 1] False show ?thesis
      using prepend_run_other[OF False, of r es] by simp
  qed
qed

lemma sort_eq_Nil_iff: "sort xs = [] \<longleftrightarrow> xs = []"
  by (metis length_sort length_0_conv)

lemma sorted_lex: "sorted (xs :: edge list) \<Longrightarrow> sorted_wrt lex_le xs"
  by (induction xs) (auto simp: lex_le_def less_eq_prod_def)

text \<open>
  Claim C1 (amended). \<^verbatim>\<open>deduplicateEdges\<close> does not canonicalise pairs; that is done where
  edges are emitted (\<^verbatim>\<open>addEdge\<close>). For every non-empty raw edge list it sorts the list
  lexicographically and returns, in order, one triple (u, v, run length) per maximal run of
  equal pairs of the sorted list, for every run before the final one: the returned list,
  followed by at most one more triple, is the collapsed sorted list.
\<close>

theorem deduplicateEdges_collapses_runs:
  assumes "edges \<noteq> []"
  shows "\<exists>out rest. deduplicateEdges edges = Inr (sort edges, out) \<and>
           collapse_runs (sort edges) = out @ rest \<and> length rest \<le> 1"
proof -
  from assms have "sort edges \<noteq> []" by (simp add: sort_eq_Nil_iff)
  then obtain front tl where s: "sort edges = front # tl" by (cases "sort edges") auto
  obtain pending where
    "[] @ prepend_run front 1 (collapse_runs tl) = dedup_loop front 1 tl [] @ [pending]"
    using dedup_loop_runs[of "[]" front 1 tl] by blast
  then have "collapse_runs (sort edges) = dedup_loop front 0 (sort edges) [] @ [pending]"
    by (simp add: s)
  then show ?thesis by (auto simp: deduplicateEdges_def s)
qed

theorem deduplicateEdges_collapses_runs_witness:
  "[(2,1),(1,2),(3,4)] \<noteq> ([] :: edge list) \<and>
   (\<exists>out rest. deduplicateEdges [(2,1),(1,2),(3,4)] = Inr (sort [(2,1),(1,2),(3,4)], out) \<and>
      collapse_runs (sort [(2,1),(1,2),(3,4)]) = out @ rest \<and> length rest \<le> 1)"
  using deduplicateEdges_collapses_runs[of "[(2,1),(1,2),(3,4)]"] by simp

text \<open>
  The scenario of claim C1 as the specification states it fails on the code: the raw
  edges [(2,1),(1,2),(3,4)] do not give [(1,2,2),(3,4,1)], which is what the specified
  algorithm computes.
\<close>

theorem deduplicateEdges_scenario_counterexample:
  "deduplicateEdges [(2,1),(1,2),(3,4)] = Inr ([(1,2),(2,1),(3,4)], [(1,2,1),(2,1,1)]) \<and>
   spec_deduplicate [(2,1),(1,2),(3,4)] = [(1,2,2),(3,4,1)] \<and>
   [(1,2,1),(2,1,1)] \<noteq> spec_deduplicate [(2,1),(1,2),(3,4)]"
  by (simp add: deduplicateEdges_def spec_deduplicate_def canonicalize_def)

text \<open>
  Claim C4 (round trip), evaluated on the code at a canonical input: for the raw edges
  [(1,2),(1,2),(3,4)] the returned list is [(1,2,2)]; expanding and sorting it gives
  [(1,2),(1,2)], not the canonicalised sorted input [(1,2),(1,2),(3,4)]. The last run is
  never appended.
\<close>

theorem deduplicateEdges_round_trip_loses_last_run:
  "deduplicateEdges [(1,2),(1,2),(3,4)] = Inr ([(1,2),(1,2),(3,4)], [(1,2,2)]) \<and>
   sort (expand_edges [(1,2,2)]) = [(1,2),(1,2)] \<and>
   sort (map canonicalize [(1,2),(1,2),(3,4)]) = [(1,2),(1,2),(3,4)]"
  by (simp add: deduplicateEdges_def expand_edges_def canonicalize_def numeral_2_eq_2)

text \<open>
  Claim C7 (empty input), evaluated on the code: there is no test for an empty vector, and
  the front element is read, which on the empty vector is a read out of range.
\<close>

theorem deduplicateEdges_empty_reads_front:
  "deduplicateEdges [] = Inl OutOfRange"
  by (simp add: deduplicateEdges_def)

text \<open>
  Claim C10. \<^verbatim>\<open>deduplicateEdges\<close> changes its argument: for every non-empty edge list the
  caller's vector holds, after the call, the same multiset of pairs, in ascending
  lexicographic order.
\<close>

theorem deduplicateEdges_sorts_argument:
  assumes "edges \<noteq> []"
  shows "\<exists>after out. deduplicateEdges edges = Inr (after, out) \<and>
           mset after = mset edges \<and> sorted_wrt lex_le after"
proof -
  from assms obtain front tl where s: "sort edges = front # tl"
    by (cases "sort edges") (auto simp: sort_eq_Nil_iff)
  have "deduplicateEdges edges = Inr (sort edges, dedup_loop front 0 (sort edges) [])"
    by (simp add: deduplicateEdges_def s)
  moreover have "mset (sort edges) = mset edges" by simp
  moreover have "sorted_wrt lex_le (sort edges)" by (rule sorted_lex) simp
  ultimately show ?thesis by blast
qed

theorem deduplicateEdges_sorts_argument_witness:
  "[(3,4),(2,1),(1,2)] \<noteq> ([] :: edge list) \<and>
   (\<exists>after out. deduplicateEdges [(3,4),(2,1),(1,2)] = Inr (after, out) \<and>
      mset after = mset [(3,4),(2,1),(1,2)] \<and> sorted_wrt lex_le after)"
  using deduplicateEdges_sorts_argument[of "[(3,4),(2,1),(1,2)]"] by simp


section \<open>Properties of RadiusLayer\<close>

subsection \<open>Counting the nodes of a cell\<close>

lemma filter_less_Suc:
  "length (filter (\<lambda>n. f n < Suc c) xs) =
   length (filter (\<lambda>n. (f n :: nat) < c) xs) + length (filter (\<lambda>n. f n = c) xs)"
  by (induction xs) auto

lemma filter_less_mono:
  "a \<le> b \<Longrightarrow> length (filter (\<lambda>n. (f n :: nat) < a) xs) \<le> length (filter (\<lambda>n. f n < b) xs)"
  by (induction xs) auto

lemma filter_less_all:
  "\<forall>n\<in>set xs. (f n :: nat) < N \<Longrightarrow> length (filter (\<lambda>n. f n < N) xs) = length xs"
  by (induction xs) auto

lemma sum_counts_below:
  "sum_list (map (\<lambda>c. length (filter (\<lambda>n. f n = c) xs)) [0..<i]) =
   length (filter (\<lambda>n. (f n :: nat) < i) xs)"
  by (induction i) (auto simp: filter_less_Suc)

lemma filter_range_diff:
  "a \<le> b \<Longrightarrow>
   length (filter (\<lambda>n. (f n :: nat) < b) xs) - length (filter (\<lambda>n. f n < a) xs) =
   length (filter (\<lambda>n. a \<le> f n \<and> f n < b) xs)"
  by (induction xs) (auto simp: Suc_diff_le filter_less_mono)

lemma count_cells_result:
  assumes "\<forall>node\<in>set nodes. node < length angles \<and>
             cellForPoint ah (angles ! node) T < numCellsInLevel ah T"
    and "numCellsInLevel ah T < length ps"
  shows "count_cells ah T angles nodes ps =
         Inr (map (\<lambda>c. ps ! c + length (filter (\<lambda>n. cellForPoint ah (angles ! n) T = c) nodes))
                [0..<length ps])"
  using assms
proof (induction nodes arbitrary: ps)
  case Nil
  show ?case by (simp add: map_nth)
next
  case (Cons node nodes)
  let ?cell = "cellForPoint ah (angles ! node) T"
  let ?ps = "ps[?cell := ps ! ?cell + 1]"
  from Cons.prems have ok: "node < length angles" "?cell < numCellsInLevel ah T" by auto
  have "count_cells ah T angles nodes ?ps =
        Inr (map (\<lambda>c. ?ps ! c + length (filter (\<lambda>n. cellForPoint ah (angles ! n) T = c) nodes))
               [0..<length ?ps])"
    using Cons.prems by (intro Cons.IH) auto
  moreover have "map (\<lambda>c. ?ps ! c + length (filter (\<lambda>n. cellForPoint ah (angles ! n) T = c) nodes))
               [0..<length ?ps] =
        map (\<lambda>c. ps ! c + length (filter (\<lambda>n. cellForPoint ah (angles ! n) T = c) (node # nodes)))
               [0..<length ps]"
    by (auto simp: nth_list_update)
  ultimately show ?case using ok by (simp add: Let_def)
qed

lemma exclusive_prefix_sums_length: "length (exclusive_prefix_sums s vs) = length vs"
  by (induction vs arbitrary: s) auto

lemma exclusive_prefix_sums_nth:
  "i < length vs \<Longrightarrow> exclusive_prefix_sums s vs ! i = s + sum_list (take i vs)"
proof (induction vs arbitrary: s i)
  case Nil
  then show ?case by simp
next
  case (Cons v vs)
  then show ?case by (cases i) (auto simp: add.assoc)
qed


lemma prefix_sums_below:
  assumes "i \<le> N"
  shows "exclusive_prefix_sums 0
           (map (\<lambda>c. replicate (N + 1) 0 ! c + length (filter (\<lambda>n. f n = c) nodes))
              [0..<length (replicate (N + 1) (0::nat))]) ! i =
         length (filter (\<lambda>n. (f n :: nat) < i) nodes)"
proof -
  have eq: "map (\<lambda>c. replicate (N + 1) 0 ! c + length (filter (\<lambda>n. f n = c) nodes))
              [0..<length (replicate (N + 1) (0::nat))] =
            map (\<lambda>c. length (filter (\<lambda>n. f n = c) nodes)) [0..<N + 1]"
    by (rule map_cong) (auto simp: nth_Cons')
  have "take i (map (\<lambda>c. length (filter (\<lambda>n. f n = c) nodes)) [0..<N + 1]) =
        map (\<lambda>c. length (filter (\<lambda>n. f n = c) nodes)) [0..<i]"
    using assms by (simp add: take_map)
  then show ?thesis
    using assms unfolding eq
    by (simp add: exclusive_prefix_sums_nth sum_counts_below del: upt_Suc)
qed

lemma fill_points_invariant:
  assumes nodes: "nodes = pre @ rest"
    and f: "\<forall>n. f n = cellForPoint ah (angles ! n) T"
    and ok: "\<forall>node\<in>set nodes. node < length angles \<and> node < length points \<and> f node < N"
    and ps_len: "length ps = N + 1"
    and ps: "\<forall>c\<le>N. ps ! c = length (filter (\<lambda>n. f n < c) nodes)"
    and len: "length pts = length nodes" "length ni = N"
    and ni: "\<forall>c<N. ni ! c = length (filter (\<lambda>n. f n = c) pre)"
    and inv: "\<forall>c<N. \<forall>j<length (filter (\<lambda>n. f n = c) pre).
                pts ! (ps ! c + j) = points ! (filter (\<lambda>n. f n = c) pre ! j)"
  shows "\<exists>pts'. fill_points ah T angles points ps rest pts ni = Inr pts' \<and>
           length pts' = length nodes \<and>
           (\<forall>c<N. \<forall>j<length (filter (\<lambda>n. f n = c) nodes).
              pts' ! (ps ! c + j) = points ! (filter (\<lambda>n. f n = c) nodes ! j))"
  using nodes len ni inv
proof (induction rest arbitrary: pre pts ni)
  case Nil
  then show ?case by simp
next
  case (Cons node rest)
  let ?c0 = "f node"
  let ?idx = "ps ! ?c0 + ni ! ?c0"
  let ?cnt = "\<lambda>c xs. length (filter (\<lambda>n. f n = c) xs)"
  let ?B = "\<lambda>c. length (filter (\<lambda>n. f n < c) nodes)"
  have nodes': "nodes = (pre @ [node]) @ rest" using Cons.prems(1) by simp
  from ok Cons.prems(1) have node: "node < length angles" "node < length points" "?c0 < N"
    by auto
  have ni0: "ni ! ?c0 = ?cnt ?c0 pre" using Cons.prems(4) node by simp
  have cnt_le: "?cnt c pre \<le> ?cnt c nodes" for c
    unfolding Cons.prems(1) by simp
  have cnt0_less: "?cnt ?c0 pre < ?cnt ?c0 nodes"
    unfolding Cons.prems(1) by simp
  have B_Suc: "?B (Suc c) = ?B c + ?cnt c nodes" for c
    by (rule filter_less_Suc)
  have B_mono: "a \<le> b \<Longrightarrow> ?B a \<le> ?B b" for a b
    by (rule filter_less_mono)
  have B_top: "?B (Suc ?c0) \<le> length nodes" by simp
  have psB: "c \<le> N \<Longrightarrow> ps ! c = ?B c" for c using ps by simp
  have idx_eq: "?idx = ?B ?c0 + ?cnt ?c0 pre" using psB[of ?c0] node ni0 by simp
  have idx_less: "?idx < length pts"
    using idx_eq cnt0_less B_Suc[of ?c0] B_top Cons.prems(2) by linarith
  have other: "ps ! c + j \<noteq> ?idx" if "c < N" "c \<noteq> ?c0" "j < ?cnt c pre" for c j
  proof (cases "c < ?c0")
    case True
    have "?B c + j < ?B (Suc c)" using that(3) cnt_le[of c] B_Suc[of c] by linarith
    also have "\<dots> \<le> ?B ?c0" using True by (intro B_mono) simp
    finally show ?thesis using idx_eq psB[of c] that(1) by simp
  next
    case False
    then have "Suc ?c0 \<le> c" using that(2) by simp
    then have "?B (Suc ?c0) \<le> ?B c" by (rule B_mono)
    then show ?thesis using idx_eq psB[of c] that(1) cnt0_less B_Suc[of ?c0] by simp
  qed
  let ?pts = "pts[?idx := points ! node]"
  let ?ni = "ni[?c0 := ni ! ?c0 + 1]"
  have step: "fill_points ah T angles points ps (node # rest) pts ni =
              fill_points ah T angles points ps rest ?pts ?ni"
    using node idx_less Cons.prems(3) ps_len f by (simp add: Let_def)
  have ni': "\<forall>c<N. ?ni ! c = ?cnt c (pre @ [node])"
    using Cons.prems(3,4) node by (auto simp: nth_list_update)
  have inv': "\<forall>c<N. \<forall>j<?cnt c (pre @ [node]).
                ?pts ! (ps ! c + j) = points ! (filter (\<lambda>n. f n = c) (pre @ [node]) ! j)"
  proof (intro allI impI)
    fix c j
    assume c: "c < N" and j: "j < ?cnt c (pre @ [node])"
    show "?pts ! (ps ! c + j) = points ! (filter (\<lambda>n. f n = c) (pre @ [node]) ! j)"
    proof (cases "c = ?c0")
      case True
      show ?thesis
      proof (cases "j = ?cnt ?c0 pre")
        case True
        with \<open>c = ?c0\<close> idx_less ni0 show ?thesis by (simp add: nth_append)
      next
        case False
        with j \<open>c = ?c0\<close> have jl: "j < ?cnt ?c0 pre" by simp
        then have "ps ! ?c0 + j \<noteq> ?idx" using ni0 by simp
        then have "?pts ! (ps ! ?c0 + j) = pts ! (ps ! ?c0 + j)" by simp
        also have "\<dots> = points ! (filter (\<lambda>n. f n = ?c0) pre ! j)"
          using Cons.prems(5) node jl by simp
        finally show ?thesis using \<open>c = ?c0\<close> jl by (simp add: nth_append)
      qed
    next
      case False
      with j have jl: "j < ?cnt c pre" by simp
      have "?pts ! (ps ! c + j) = pts ! (ps ! c + j)"
        using other[OF c False jl] by simp
      also have "\<dots> = points ! (filter (\<lambda>n. f n = c) pre ! j)"
        using Cons.prems(5) c jl by simp
      finally show ?thesis using False by simp
    qed
  qed
  from Cons.IH[OF nodes' _ _ ni' inv'] Cons.prems(2,3)
  show ?case unfolding step by simp
qed

lemma count_cells_Inr:
  "count_cells ah T angles nodes ps = Inr r \<Longrightarrow>
   \<forall>node\<in>set nodes. node < length angles \<and> cellForPoint ah (angles ! node) T < numCellsInLevel ah T"
  by (induction nodes arbitrary: ps) (auto simp: Let_def split: if_splits)

lemma fill_points_Inr:
  "fill_points ah T angles points ps nodes pts ni = Inr r \<Longrightarrow>
   \<forall>node\<in>set nodes. node < length points"
  by (induction nodes arbitrary: pts ni) (auto simp: Let_def split: if_splits)

lemma RadiusLayer_ctor_layer:
  fixes ah :: "'a AngleHelper"
  assumes ok: "\<forall>node\<in>set nodes. node < length angles \<and> node < length points \<and>
                 finest_cell ah T angles node < numCellsInLevel ah T"
  shows "\<exists>layer. RadiusLayer_ctor ah dp r_min r_max T nodes angles points = Inr layer \<and>
           m_target_level layer = T \<and>
           length (m_prefix_sums layer) = numCellsInLevel ah T + 1 \<and>
           (\<forall>c\<le>numCellsInLevel ah T. m_prefix_sums layer ! c =
              length (filter (\<lambda>n. finest_cell ah T angles n < c) nodes)) \<and>
           length (m_points layer) = length nodes \<and>
           (\<forall>c<numCellsInLevel ah T.
              \<forall>j<length (filter (\<lambda>n. finest_cell ah T angles n = c) nodes).
                m_points layer ! (m_prefix_sums layer ! c + j) =
                points ! (filter (\<lambda>n. finest_cell ah T angles n = c) nodes ! j))"
proof -
  let ?N = "numCellsInLevel ah T"
  let ?f = "finest_cell ah T angles"
  let ?counts = "map (\<lambda>c. replicate (?N + 1) 0 ! c + length (filter (\<lambda>n. ?f n = c) nodes))
                   [0..<length (replicate (?N + 1) (0::nat))]"
  let ?ps = "exclusive_prefix_sums 0 ?counts"
  have f: "\<forall>n. ?f n = cellForPoint ah (angles ! n) T" by (simp add: finest_cell_def)
  have counts: "count_cells ah T angles nodes (replicate (?N + 1) 0) = Inr ?counts"
    using count_cells_result[of nodes angles ah T "replicate (?N + 1) 0"] ok
    by (simp add: finest_cell_def)
  have ps_len: "length ?ps = ?N + 1" by (simp add: exclusive_prefix_sums_length)
  have ps: "\<forall>c\<le>?N. ?ps ! c = length (filter (\<lambda>n. ?f n < c) nodes)"
    using prefix_sums_below[of _ ?N ?f nodes] by blast
  have "?ps \<noteq> []" using ps_len by auto
  then have "last ?ps = ?ps ! ?N" using ps_len by (simp add: last_conv_nth)
  also have "\<dots> = length (filter (\<lambda>n. ?f n < ?N) nodes)" using ps by simp
  also have "\<dots> = length nodes" using ok by (intro filter_less_all) simp
  finally have last_ps: "last ?ps = length nodes" .
  obtain pts where pts:
    "fill_points ah T angles points ?ps nodes (replicate (last ?ps) dp) (replicate ?N 0) = Inr pts"
    "length pts = length nodes"
    "\<forall>c<?N. \<forall>j<length (filter (\<lambda>n. ?f n = c) nodes).
        pts ! (?ps ! c + j) = points ! (filter (\<lambda>n. ?f n = c) nodes ! j)"
    using fill_points_invariant[of nodes "[]" nodes ?f ah angles T points ?N ?ps
            "replicate (last ?ps) dp" "replicate ?N 0", OF _ f _ ps_len ps]
          ok last_ps by auto
  have "RadiusLayer_ctor ah dp r_min r_max T nodes angles points =
        Inr \<lparr>m_r_min = r_min, m_r_max = r_max, m_target_level = T,
             m_prefix_sums = ?ps, m_points = pts\<rparr>"
    unfolding RadiusLayer_ctor_def Let_def counts using pts(1) by simp
  then show ?thesis using ps_len ps pts(2,3) by simp
qed

lemma RadiusLayer_ctor_Inr:
  assumes "RadiusLayer_ctor ah dp r_min r_max T nodes angles points = Inr layer"
  shows "\<forall>node\<in>set nodes. node < length angles \<and> node < length points \<and>
           finest_cell ah T angles node < numCellsInLevel ah T"
proof -
  from assms obtain counts where c:
    "count_cells ah T angles nodes (replicate (numCellsInLevel ah T + 1) 0) = Inr counts"
    unfolding RadiusLayer_ctor_def Let_def by (auto split: sum.splits)
  with assms obtain pts where
    "fill_points ah T angles points (exclusive_prefix_sums 0 counts) nodes
       (replicate (last (exclusive_prefix_sums 0 counts)) dp)
       (replicate (numCellsInLevel ah T) 0) = Inr pts"
    unfolding RadiusLayer_ctor_def Let_def by (auto split: sum.splits)
  then show ?thesis
    using count_cells_Inr[OF c] fill_points_Inr by (fastforce simp: finest_cell_def)
qed

subsection \<open>Slices of the point vector\<close>

lemma slice_of_cell:
  fixes f :: "nat \<Rightarrow> nat"
  assumes len: "length pts = length nodes"
    and inv: "\<forall>j<length (filter (\<lambda>n. f n = c) nodes).
                pts ! (length (filter (\<lambda>n. f n < c) nodes) + j) = points ! (filter (\<lambda>n. f n = c) nodes ! j)"
  shows "take (length (filter (\<lambda>n. f n = c) nodes)) (drop (length (filter (\<lambda>n. f n < c) nodes)) pts) =
         map (\<lambda>node. points ! node) (filter (\<lambda>n. f n = c) nodes)"
proof (rule nth_equalityI)
  have "length (filter (\<lambda>n. f n < Suc c) nodes) \<le> length nodes" by simp
  then have le: "length (filter (\<lambda>n. f n < c) nodes) + length (filter (\<lambda>n. f n = c) nodes) \<le> length pts"
    using len by (simp add: filter_less_Suc)
  then show "length (take (length (filter (\<lambda>n. f n = c) nodes)) (drop (length (filter (\<lambda>n. f n < c) nodes)) pts)) =
        length (map (\<lambda>node. points ! node) (filter (\<lambda>n. f n = c) nodes))"
    by simp
  fix i
  assume "i < length (take (length (filter (\<lambda>n. f n = c) nodes)) (drop (length (filter (\<lambda>n. f n < c) nodes)) pts))"
  then have i: "i < length (filter (\<lambda>n. f n = c) nodes)" by simp
  then show "take (length (filter (\<lambda>n. f n = c) nodes)) (drop (length (filter (\<lambda>n. f n < c) nodes)) pts) ! i =
        map (\<lambda>node. points ! node) (filter (\<lambda>n. f n = c) nodes) ! i"
    using inv le by simp
qed

lemma slices_concat:
  fixes f :: "nat \<Rightarrow> nat"
  assumes len: "length pts = length nodes"
    and inv: "\<forall>c<N. \<forall>j<length (filter (\<lambda>n. f n = c) nodes).
                pts ! (length (filter (\<lambda>n. f n < c) nodes) + j) = points ! (filter (\<lambda>n. f n = c) nodes ! j)"
    and "a \<le> b" "b \<le> N"
  shows "take (length (filter (\<lambda>n. f n < b) nodes) - length (filter (\<lambda>n. f n < a) nodes))
           (drop (length (filter (\<lambda>n. f n < a) nodes)) pts) =
         map (\<lambda>node. points ! node) (concat (map (\<lambda>c. filter (\<lambda>n. f n = c) nodes) [a..<b]))"
  using assms(3,4)
proof (induction b)
  case 0
  then show ?case by simp
next
  case (Suc b)
  show ?case
  proof (cases "a = Suc b")
    case True
    then show ?thesis by simp
  next
    case False
    with Suc.prems have ab: "a \<le> b" and bN: "b < N" by simp_all
    let ?B = "\<lambda>c. length (filter (\<lambda>n. f n < c) nodes)"
    let ?cnt = "length (filter (\<lambda>n. f n = b) nodes)"
    have mono: "?B a \<le> ?B b" using ab by (rule filter_less_mono)
    have split: "?B (Suc b) - ?B a = (?B b - ?B a) + ?cnt"
      using mono by (simp add: filter_less_Suc)
    have t1: "take (?B (Suc b) - ?B a) (drop (?B a) pts) =
          take (?B b - ?B a) (drop (?B a) pts) @ take ?cnt (drop (?B b - ?B a) (drop (?B a) pts))"
      by (simp only: split take_add)
    have t2: "drop (?B b - ?B a) (drop (?B a) pts) = drop (?B b) pts"
      using mono by simp
    have t3: "take (?B b - ?B a) (drop (?B a) pts) =
               map (\<lambda>node. points ! node) (concat (map (\<lambda>c. filter (\<lambda>n. f n = c) nodes) [a..<b]))"
      using Suc.IH ab bN by simp
    have t4: "take ?cnt (drop (?B b) pts) = map (\<lambda>node. points ! node) (filter (\<lambda>n. f n = b) nodes)"
      using slice_of_cell[OF len, of f b points] inv bN by simp
    show ?thesis unfolding t1 t2 t3 t4 using ab by simp
  qed
qed

lemma mset_filter_split:
  "mset (filter (\<lambda>n. a \<le> f n \<and> (f n :: nat) < b) xs) + mset (filter (\<lambda>n. f n = b) xs) =
   (if a \<le> b then mset (filter (\<lambda>n. a \<le> f n \<and> f n < Suc b) xs) else mset (filter (\<lambda>n. f n = b) xs))"
  by (induction xs) auto

lemma mset_concat_cells:
  "mset (concat (map (\<lambda>c. filter (\<lambda>n. f n = c) xs) [a..<b])) =
   mset (filter (\<lambda>n. a \<le> f n \<and> (f n :: nat) < b) xs)"
proof (induction b)
  case 0
  show ?case by simp
next
  case (Suc b)
  show ?case
  proof (cases "a \<le> b")
    case True
    then show ?thesis using Suc mset_filter_split[of a f b xs] by simp
  next
    case False
    then have "\<And>n. \<not> (a \<le> f n \<and> f n < Suc b)" by auto
    then show ?thesis using False by simp
  qed
qed

subsection \<open>The constructed layer\<close>

lemma RadiusLayer_ctor_facts:
  fixes ah :: "'a AngleHelper"
  assumes ctor: "RadiusLayer_ctor ah dp r_min r_max T nodes angles points = Inr layer"
  shows "m_target_level layer = T"
    and "length (m_prefix_sums layer) = numCellsInLevel ah T + 1"
    and "\<forall>c\<le>numCellsInLevel ah T. m_prefix_sums layer ! c =
              length (filter (\<lambda>n. finest_cell ah T angles n < c) nodes)"
    and "length (m_points layer) = length nodes"
    and "\<forall>c<numCellsInLevel ah T.
              \<forall>j<length (filter (\<lambda>n. finest_cell ah T angles n = c) nodes).
                m_points layer ! (length (filter (\<lambda>n. finest_cell ah T angles n < c) nodes) + j) =
                points ! (filter (\<lambda>n. finest_cell ah T angles n = c) nodes ! j)"
proof -
  from RadiusLayer_ctor_layer[OF RadiusLayer_ctor_Inr[OF ctor], of dp r_min r_max] ctor
  have *: "m_target_level layer = T \<and>
           length (m_prefix_sums layer) = numCellsInLevel ah T + 1 \<and>
           (\<forall>c\<le>numCellsInLevel ah T. m_prefix_sums layer ! c =
              length (filter (\<lambda>n. finest_cell ah T angles n < c) nodes)) \<and>
           length (m_points layer) = length nodes \<and>
           (\<forall>c<numCellsInLevel ah T.
              \<forall>j<length (filter (\<lambda>n. finest_cell ah T angles n = c) nodes).
                m_points layer ! (m_prefix_sums layer ! c + j) =
                points ! (filter (\<lambda>n. finest_cell ah T angles n = c) nodes ! j))"
    by auto
  then show "m_target_level layer = T"
    and "length (m_prefix_sums layer) = numCellsInLevel ah T + 1"
    and "\<forall>c\<le>numCellsInLevel ah T. m_prefix_sums layer ! c =
              length (filter (\<lambda>n. finest_cell ah T angles n < c) nodes)"
    and "length (m_points layer) = length nodes"
    by simp_all
  from * show "\<forall>c<numCellsInLevel ah T.
              \<forall>j<length (filter (\<lambda>n. finest_cell ah T angles n = c) nodes).
                m_points layer ! (length (filter (\<lambda>n. finest_cell ah T angles n < c) nodes) + j) =
                points ! (filter (\<lambda>n. finest_cell ah T angles n = c) nodes ! j)"
    by (metis less_imp_le_nat)
qed


text \<open>
  Claim C2. For a node set whose finest-level cells all lie below
  \<open>numCellsInLevel targetLevel\<close> (and whose node indices lie inside \<open>angles\<close> and
  \<open>points\<close>), the constructor succeeds, and in the layer it builds the prefix sums have
  \<open>numCellsInLevel targetLevel + 1\<close> entries, start with 0, never decrease and end with
  the number of points; for every cell \<open>c\<close> the slice of the point vector from
  \<open>prefix_sums[c]\<close> up to \<open>prefix_sums[c + 1]\<close> holds the points of the nodes whose
  finest-level cell is \<open>c\<close>, in the order of the input.
\<close>

theorem RadiusLayer_prefix_sums_invariant:
  fixes ah :: "'a AngleHelper"
  assumes "\<forall>node\<in>set nodes. node < length angles \<and> node < length points \<and>
             finest_cell ah T angles node < numCellsInLevel ah T"
  shows "\<exists>layer. RadiusLayer_ctor ah dp r_min r_max T nodes angles points = Inr layer \<and>
           length (m_prefix_sums layer) = numCellsInLevel ah T + 1 \<and>
           m_prefix_sums layer ! 0 = 0 \<and>
           sorted (m_prefix_sums layer) \<and>
           last (m_prefix_sums layer) = length nodes \<and>
           length (m_points layer) = length nodes \<and>
           (\<forall>c<numCellsInLevel ah T.
              take (m_prefix_sums layer ! (c + 1) - m_prefix_sums layer ! c)
                   (drop (m_prefix_sums layer ! c) (m_points layer)) =
              map (\<lambda>node. points ! node) (filter (\<lambda>node. finest_cell ah T angles node = c) nodes))"
proof -
  let ?N = "numCellsInLevel ah T"
  let ?f = "finest_cell ah T angles"
  let ?B = "\<lambda>c. length (filter (\<lambda>n. ?f n < c) nodes)"
  from RadiusLayer_ctor_layer[OF assms, of dp r_min r_max] obtain layer where
    ctor: "RadiusLayer_ctor ah dp r_min r_max T nodes angles points = Inr layer"
    and len: "length (m_prefix_sums layer) = ?N + 1"
    and ps: "\<forall>c\<le>?N. m_prefix_sums layer ! c = ?B c"
    and plen: "length (m_points layer) = length nodes"
    and inv: "\<forall>c<?N. \<forall>j<length (filter (\<lambda>n. ?f n = c) nodes).
                m_points layer ! (m_prefix_sums layer ! c + j) =
                points ! (filter (\<lambda>n. ?f n = c) nodes ! j)"
    by blast
  have zero: "m_prefix_sums layer ! 0 = 0" using ps by simp
  have "m_prefix_sums layer ! i \<le> m_prefix_sums layer ! j"
    if "i \<le> j" "j < length (m_prefix_sums layer)" for i j
    using that ps len filter_less_mono[of i j ?f nodes] by simp
  then have sorted: "sorted (m_prefix_sums layer)"
    by (simp add: sorted_iff_nth_mono)
  have "m_prefix_sums layer \<noteq> []" using len by auto
  then have "last (m_prefix_sums layer) = m_prefix_sums layer ! ?N"
    using len by (simp add: last_conv_nth)
  also have "\<dots> = ?B ?N" using ps by simp
  also have "\<dots> = length nodes" using assms by (intro filter_less_all) simp
  finally have last: "last (m_prefix_sums layer) = length nodes" .
  have slices: "take (m_prefix_sums layer ! (c + 1) - m_prefix_sums layer ! c)
                   (drop (m_prefix_sums layer ! c) (m_points layer)) =
              map (\<lambda>node. points ! node) (filter (\<lambda>node. ?f node = c) nodes)"
    if c: "c < ?N" for c
  proof -
    have "m_prefix_sums layer ! (c + 1) - m_prefix_sums layer ! c =
          length (filter (\<lambda>n. ?f n = c) nodes)"
      using ps c by (simp add: filter_less_Suc)
    moreover have "m_prefix_sums layer ! c = ?B c" using ps c by simp
    moreover have "\<forall>j<length (filter (\<lambda>n. ?f n = c) nodes).
        m_points layer ! (?B c + j) = points ! (filter (\<lambda>n. ?f n = c) nodes ! j)"
      using inv ps c by simp
    ultimately show ?thesis
      using slice_of_cell[OF plen, of ?f c points] by simp
  qed
  show ?thesis using ctor len zero sorted last plen slices by blast
qed

theorem RadiusLayer_prefix_sums_invariant_witness:
  "RadiusLayer_ctor scenario_hierarchy 0 () () 2 [0, 1, 2, 3] [0, 0, 1, 2] [10, 11, 12, 13]
     = Inr scenario_layer \<and>
   (\<exists>layer. RadiusLayer_ctor scenario_hierarchy (0::nat) () () 2 [0, 1, 2, 3] [0, 0, 1, 2] [10, 11, 12, 13]
        = Inr layer \<and>
      length (m_prefix_sums layer) = numCellsInLevel scenario_hierarchy 2 + 1 \<and>
      m_prefix_sums layer ! 0 = 0 \<and>
      sorted (m_prefix_sums layer) \<and>
      last (m_prefix_sums layer) = length [0, 1, 2, 3 :: nat] \<and>
      length (m_points layer) = length [0, 1, 2, 3 :: nat] \<and>
      (\<forall>c<numCellsInLevel scenario_hierarchy 2.
         take (m_prefix_sums layer ! (c + 1) - m_prefix_sums layer ! c)
              (drop (m_prefix_sums layer ! c) (m_points layer)) =
         map (\<lambda>node. [10, 11, 12, 13] ! node)
           (filter (\<lambda>node. finest_cell scenario_hierarchy 2 [0, 0, 1, 2] node = c) [0, 1, 2, 3])))"
proof -
  have h: "\<forall>node\<in>set [0, 1, 2, 3]. node < length [0, 0, 1, 2 :: nat] \<and>
             node < length [10, 11, 12, 13 :: nat] \<and>
             finest_cell scenario_hierarchy 2 [0, 0, 1, 2] node < numCellsInLevel scenario_hierarchy 2"
    by (simp add: finest_cell_def scenario_hierarchy_def)
  have c: "RadiusLayer_ctor scenario_hierarchy (0::nat) () () 2 [0, 1, 2, 3] [0, 0, 1, 2] [10, 11, 12, 13]
             = Inr scenario_layer"
    by (simp add: RadiusLayer_ctor_def scenario_hierarchy_def scenario_layer_def eval_nat_numeral)
  from RadiusLayer_prefix_sums_invariant[OF h, of 0 "()" "()"] c show ?thesis
    by blast
qed


subsection \<open>Queries\<close>

lemma u32_id: "n < 2 ^ 32 \<Longrightarrow> u32 n = n"
  by (simp add: u32_def)

lemma u32_pred: "0 < n \<Longrightarrow> n \<le> 2 ^ 32 \<Longrightarrow> u32 (n + (2 ^ 32 - 1)) = n - 1"
proof -
  assume a: "0 < n" "n \<le> 2 ^ 32"
  have "n + (2 ^ 32 - 1) = (n - 1) + 1 * 2 ^ 32" using a by simp
  then have "u32 (n + (2 ^ 32 - 1)) = (n - 1) mod 2 ^ 32"
    unfolding u32_def by (metis mod_mult_self1)
  then show ?thesis using a by simp
qed

text \<open>
  Under the contract no index computation of a query wraps around, and the assertions
  hold.
\<close>

lemma query_indices:
  assumes lvl: "cell_in_level ah T cell level"
    and hc: "hierarchy_contract ah T cell level"
  defines "D \<equiv> numCellsInLevel ah (T - level)"
  defines "b \<equiv> first_descendant ah T cell level"
  shows "u32 ((cell - firstCellOfLevel ah level) * D) = b"
    and "u32 (b + D + (2 ^ 32 - 1)) = b + D - 1"
    and "u32 (b + firstCellOfLevel ah level) < firstCellOfLevel ah (T + 1)"
    and "u32 (b + D - 1 + firstCellOfLevel ah level) < firstCellOfLevel ah (T + 1)"
    and "b + D \<le> numCellsInLevel ah T" and "0 < D"
proof -
  from hc have D: "0 < D" and blk: "b + D \<le> numCellsInLevel ah T"
    and ids: "firstCellOfLevel ah level + numCellsInLevel ah T \<le> firstCellOfLevel ah (T + 1)"
    and fit: "firstCellOfLevel ah (T + 1) < 2 ^ 32"
    by (simp_all add: hierarchy_contract_def D_def b_def)
  show "0 < D" by fact
  show "b + D \<le> numCellsInLevel ah T" by fact
  have "b < 2 ^ 32" using D blk ids fit by linarith
  then show "u32 ((cell - firstCellOfLevel ah level) * D) = b"
    by (simp add: u32_id b_def first_descendant_def D_def)
  have "b + D \<le> 2 ^ 32" using blk ids fit by linarith
  then show "u32 (b + D + (2 ^ 32 - 1)) = b + D - 1"
    using D by (intro u32_pred) simp_all
  have "b + firstCellOfLevel ah level < firstCellOfLevel ah (T + 1)"
    using D blk ids by linarith
  then show "u32 (b + firstCellOfLevel ah level) < firstCellOfLevel ah (T + 1)"
    using fit by (simp add: u32_id)
  have "b + D - 1 + firstCellOfLevel ah level < firstCellOfLevel ah (T + 1)"
    using D blk ids by linarith
  then show "u32 (b + D - 1 + firstCellOfLevel ah level) < firstCellOfLevel ah (T + 1)"
    using fit by (simp add: u32_id)
qed

text \<open>
  The contract is that of a binary hierarchy (every cell splits in two on the next level):
  with \<open>2^l\<close> cells on level \<open>l\<close>, the first of them numbered \<open>2^l - 1\<close>, it holds
  for every cell of every level up to a target level below 32.
\<close>

lemma binary_hierarchy_contract:
  assumes num: "numCellsInLevel ah = (\<lambda>l. 2 ^ l)"
    and first: "firstCellOfLevel ah = (\<lambda>l. 2 ^ l - 1)"
    and T: "T < 32"
    and lvl: "cell_in_level ah T cell level"
  shows "hierarchy_contract ah T cell level"
proof -
  from lvl have le: "level \<le> T" and lo: "(2::nat) ^ level - 1 \<le> cell"
    and hi: "cell < 2 ^ (level + 1) - 1"
    by (simp_all add: cell_in_level_def first)
  define loc where "loc = cell - (2 ^ level - 1)"
  have loc: "loc + 1 \<le> 2 ^ level" using lo hi by (simp add: loc_def) 
  have "(loc + 1) * 2 ^ (T - level) \<le> 2 ^ level * (2::nat) ^ (T - level)"
    using loc by (rule mult_le_mono1)
  also have "\<dots> = 2 ^ T" using le by (simp flip: power_add)
  finally have blk: "loc * 2 ^ (T - level) + 2 ^ (T - level) \<le> (2::nat) ^ T" by simp
  have p: "(2::nat) ^ level \<le> 2 ^ T" using le by simp
  have one: "(1::nat) \<le> 2 ^ level" by simp
  have "(2::nat) ^ (T + 1) = 2 ^ T + 2 ^ T" by simp
  with p one have ids: "(2::nat) ^ level - 1 + 2 ^ T \<le> 2 ^ (T + 1) - 1" by linarith
  have "(2::nat) ^ (T + 1) \<le> 2 ^ 32" using T by (intro power_increasing) simp_all
  then have fit: "(2::nat) ^ (T + 1) - 1 < 2 ^ 32" by simp
  show ?thesis
    unfolding hierarchy_contract_def first_descendant_def num first
    using blk ids fit by (simp add: loc_def)
qed

text \<open>
  The value of \<^verbatim>\<open>pointsInCell\<close> as a difference of two prefix sums, each the number of
  nodes in the cells below an index.
\<close>

lemma pointsInCell_prefix_difference:
  fixes ah :: "'a AngleHelper"
  assumes ctor: "RadiusLayer_ctor ah dp r_min r_max T nodes angles points = Inr layer"
    and lvl: "cell_in_level ah T cell level"
    and hc: "hierarchy_contract ah T cell level"
  shows "pointsInCell ah layer cell level =
         Inr (int (length (filter (\<lambda>n. finest_cell ah T angles n
                  < first_descendant ah T cell level + numCellsInLevel ah (T - level)) nodes))
              - int (length (filter (\<lambda>n. finest_cell ah T angles n
                  < first_descendant ah T cell level) nodes)))"
proof -
  let ?f = "finest_cell ah T angles"
  let ?B = "\<lambda>c. length (filter (\<lambda>n. ?f n < c) nodes)"
  let ?D = "numCellsInLevel ah (T - level)"
  let ?b = "first_descendant ah T cell level"
  let ?ps = "m_prefix_sums layer"
  note facts = RadiusLayer_ctor_facts[OF ctor]
  note idx = query_indices[OF lvl hc]
  have e1: "?b + ?D - 1 + 1 = ?b + ?D" using idx(6) by simp
  have inr: "?b + ?D - 1 + 1 < length ?ps" using idx(5) facts(2) e1 by simp
  have blen: "?b < length ?ps" using idx(5,6) facts(2) by simp
  have psb: "?ps ! ?b = ?B ?b" using facts(3) idx(5) by simp
  have pse: "?ps ! (?b + ?D - 1 + 1) = ?B (?b + ?D)" using facts(3) idx(5) e1 by simp
  have "pointsInCell ah layer cell level =
        Inr (int (?ps ! (?b + ?D - 1)) - int (?ps ! ?b)
             + (int (?ps ! (?b + ?D - 1 + 1)) - int (?ps ! (?b + ?D - 1))))"
    using lvl inr blen idx(1-4)
    by (simp add: pointsInCell_def cell_in_level_def facts(1) Let_def first_descendant_def)
  also have "int (?ps ! (?b + ?D - 1)) - int (?ps ! ?b)
             + (int (?ps ! (?b + ?D - 1 + 1)) - int (?ps ! (?b + ?D - 1))) =
             int (?B (?b + ?D)) - int (?B ?b)"
    unfolding psb pse by simp
  finally show ?thesis .
qed

text \<open>
  A cell is named by its number in the whole hierarchy. Where the levels are numbered one
  after the other, the number 0 names a cell of the target level only if the target level
  comes first; in the scenario of the specification (three cells on the target level, the
  prefix sums [0, 2, 3, 4]) the call with cell 0 on the target level therefore never
  returns 2.
\<close>

lemma contiguous_first_mono:
  assumes "\<forall>l. firstCellOfLevel ah (l + 1) = firstCellOfLevel ah l + numCellsInLevel ah l"
  shows "l \<le> m \<Longrightarrow> firstCellOfLevel ah l \<le> firstCellOfLevel ah m"
proof (induction m)
  case 0
  then show ?case by simp
next
  case (Suc m)
  show ?case
  proof (cases "l = Suc m")
    case True
    then show ?thesis by simp
  next
    case False
    with Suc.prems have "l \<le> m" by simp
    from Suc.IH[OF this] assms[rule_format, of m] show ?thesis by simp
  qed
qed

lemma pointsInCell_cell_zero:
  fixes layer :: "('r, 'p) RadiusLayer"
  assumes contig: "\<forall>l. firstCellOfLevel ah (l + 1) = firstCellOfLevel ah l + numCellsInLevel ah l"
    and fit: "numCellsInLevel ah 0 < 2 ^ 32"
    and three: "numCellsInLevel ah (m_target_level layer) = 3"
    and ps: "m_prefix_sums layer = [0, 2, 3, 4]"
  shows "pointsInCell ah layer 0 (m_target_level layer) \<noteq> Inr 2"
proof
  let ?T = "m_target_level layer"
  let ?D = "numCellsInLevel ah 0"
  let ?e = "u32 (?D + (2 ^ 32 - 1))"
  assume two: "pointsInCell ah layer 0 ?T = Inr 2"
  have first0: "firstCellOfLevel ah ?T = 0"
    using two by (auto simp: pointsInCell_def Let_def split: if_splits)
  have len: "?e + 1 < 4" and val: "int ([0, 2, 3, 4::nat] ! (?e + 1)) = 2"
    using two first0 by (auto simp: pointsInCell_def Let_def ps u32_def split: if_splits)
  from len have "?e = 0 \<or> ?e = 1 \<or> ?e = 2" by linarith
  with val have e0: "?e = 0" by auto
  have "?D = 1"
  proof (cases "?D = 0")
    case True
    with e0 show ?thesis by (simp add: u32_def)
  next
    case False
    then have "u32 (?D + (2 ^ 32 - 1)) = ?D - 1"
      using fit by (intro u32_pred) simp_all
    with e0 False show ?thesis by simp
  qed
  have "?T \<noteq> 0"
  proof
    assume "?T = 0"
    with three \<open>?D = 1\<close> show False by simp
  qed
  then have "1 \<le> ?T" by simp
  from contiguous_first_mono[OF contig this] contig[rule_format, of 0] \<open>?D = 1\<close>
  have "0 < firstCellOfLevel ah ?T" by simp
  with first0 show False by simp
qed

text \<open>
  Claim C3 (amended). For every constructed layer, every level no finer than the target
  level and every cell of that level (the hierarchy keeping its contract for the cell),
  \<^verbatim>\<open>pointsInCell\<close> returns the number of nodes whose finest-level cell is a descendant of
  the cell. Cells are passed by their number in the whole hierarchy, as the assertions of
  the source require: in the scenario the finest-level cell 0 is the cell
  \<open>firstCellOfLevel targetLevel + 0\<close>.
\<close>

theorem pointsInCell_counts_descendants:
  fixes ah :: "'a AngleHelper"
  assumes ctor: "RadiusLayer_ctor ah dp r_min r_max T nodes angles points = Inr layer"
    and lvl: "cell_in_level ah T cell level"
    and hc: "hierarchy_contract ah T cell level"
  shows "pointsInCell ah layer cell level =
         Inr (int (length (filter (\<lambda>node. is_descendant ah T cell level (finest_cell ah T angles node)) nodes)))"
proof -
  let ?f = "finest_cell ah T angles"
  let ?B = "\<lambda>c. length (filter (\<lambda>n. ?f n < c) nodes)"
  let ?D = "numCellsInLevel ah (T - level)"
  let ?b = "first_descendant ah T cell level"
  have "pointsInCell ah layer cell level = Inr (int (?B (?b + ?D)) - int (?B ?b))"
    by (rule pointsInCell_prefix_difference[OF ctor lvl hc])
  also have "int (?B (?b + ?D)) - int (?B ?b) = int (?B (?b + ?D) - ?B ?b)"
    using filter_less_mono[of ?b "?b + ?D" ?f nodes] by simp
  also have "?B (?b + ?D) - ?B ?b = length (filter (\<lambda>n. ?b \<le> ?f n \<and> ?f n < ?b + ?D) nodes)"
    by (rule filter_range_diff) simp
  finally show ?thesis by (simp add: is_descendant_def)
qed

text \<open>
  The scenario of claim C3: the layer built from four points in the finest-level cells
  0, 0, 1, 2 has the prefix sums [0, 2, 3, 4]; the finest-level cell 0 (cell 3 of the
  hierarchy, on level 2) holds 2 points, and its parent, which covers the finest-level
  cells 0 and 1 (cell 1 of the hierarchy, on level 1), holds 3.
\<close>

theorem pointsInCell_counts_descendants_witness:
  "RadiusLayer_ctor scenario_hierarchy 0 () () 2 [0, 1, 2, 3] [0, 0, 1, 2] [10, 11, 12, 13]
     = Inr scenario_layer \<and>
   m_prefix_sums scenario_layer = [0, 2, 3, 4] \<and>
   numCellsInLevel scenario_hierarchy 2 = 3 \<and>
   firstCellOfLevel scenario_hierarchy 2 + 0 = 3 \<and>
   cell_in_level scenario_hierarchy 2 3 2 \<and> hierarchy_contract scenario_hierarchy 2 3 2 \<and>
   pointsInCell scenario_hierarchy scenario_layer 3 2 = Inr 2 \<and>
   cell_in_level scenario_hierarchy 2 1 1 \<and> hierarchy_contract scenario_hierarchy 2 1 1 \<and>
   is_descendant scenario_hierarchy 2 1 1 0 \<and> is_descendant scenario_hierarchy 2 1 1 1 \<and>
   \<not> is_descendant scenario_hierarchy 2 1 1 2 \<and>
   pointsInCell scenario_hierarchy scenario_layer 1 1 = Inr 3"
proof -
  have c: "RadiusLayer_ctor scenario_hierarchy (0::nat) () () 2 [0, 1, 2, 3] [0, 0, 1, 2] [10, 11, 12, 13]
             = Inr scenario_layer"
    by (simp add: RadiusLayer_ctor_def scenario_hierarchy_def scenario_layer_def eval_nat_numeral)
  have l1: "cell_in_level scenario_hierarchy 2 3 2" and l2: "cell_in_level scenario_hierarchy 2 1 1"
    by (simp_all add: cell_in_level_def scenario_hierarchy_def)
  have h1: "hierarchy_contract scenario_hierarchy 2 3 2"
    and h2: "hierarchy_contract scenario_hierarchy 2 1 1"
    by (simp_all add: hierarchy_contract_def first_descendant_def scenario_hierarchy_def)
  have d: "is_descendant scenario_hierarchy 2 1 1 0" "is_descendant scenario_hierarchy 2 1 1 1"
    "\<not> is_descendant scenario_hierarchy 2 1 1 2"
    by (simp_all add: is_descendant_def first_descendant_def scenario_hierarchy_def)
  have p1: "pointsInCell scenario_hierarchy scenario_layer 3 2 = Inr 2"
    using pointsInCell_counts_descendants[OF c l1 h1]
    by (simp add: is_descendant_def first_descendant_def finest_cell_def scenario_hierarchy_def)
  have p2: "pointsInCell scenario_hierarchy scenario_layer 1 1 = Inr 3"
    using pointsInCell_counts_descendants[OF c l2 h2]
    by (simp add: is_descendant_def first_descendant_def finest_cell_def scenario_hierarchy_def)
  show ?thesis using c l1 l2 h1 h2 d p1 p2
    by (simp add: scenario_layer_def scenario_hierarchy_def)
qed

text \<open>
  The scenario of claim C3 as the specification states it fails on the code: called with
  cell 0 on the target level, \<^verbatim>\<open>pointsInCell\<close> stops at the assertion that the cell
  belongs to the level.
\<close>

theorem pointsInCell_cell_zero_counterexample:
  "RadiusLayer_ctor scenario_hierarchy 0 () () 2 [0, 1, 2, 3] [0, 0, 1, 2] [10, 11, 12, 13]
     = Inr scenario_layer \<and>
   m_target_level scenario_layer = 2 \<and>
   numCellsInLevel scenario_hierarchy 2 = 3 \<and>
   m_prefix_sums scenario_layer = [0, 2, 3, 4] \<and>
   firstCellOfLevel scenario_hierarchy 2 = 3 \<and>
   pointsInCell scenario_hierarchy scenario_layer 0 2 = Inl AssertionFailed"
proof -
  have "RadiusLayer_ctor scenario_hierarchy (0::nat) () () 2 [0, 1, 2, 3] [0, 0, 1, 2] [10, 11, 12, 13]
          = Inr scenario_layer"
    by (simp add: RadiusLayer_ctor_def scenario_hierarchy_def scenario_layer_def eval_nat_numeral)
  moreover have "pointsInCell scenario_hierarchy scenario_layer 0 2 = Inl AssertionFailed"
    by (simp add: pointsInCell_def scenario_hierarchy_def scenario_layer_def)
  ultimately show ?thesis
    by (simp add: scenario_hierarchy_def scenario_layer_def)
qed

text \<open>
  Claim C6. For every constructed layer and every cell of a level no finer than the target
  level, the values of \<^verbatim>\<open>kthPoint\<close> for \<open>k\<close> from 0 up to \<^verbatim>\<open>pointsInCell\<close> (excluded) are,
  as a multiset, exactly the points of the nodes whose finest-level cell is a descendant
  of the cell: none is missing and none occurs more often than among these nodes.
\<close>

theorem kthPoint_enumerates_descendants:
  fixes ah :: "'a AngleHelper"
  assumes ctor: "RadiusLayer_ctor ah dp r_min r_max T nodes angles points = Inr layer"
    and lvl: "cell_in_level ah T cell level"
    and hc: "hierarchy_contract ah T cell level"
  shows "\<exists>n. pointsInCell ah layer cell level = Inr (int n) \<and>
           mset (map (\<lambda>k. kthPoint ah layer cell level (int k)) [0..<n]) =
           mset (map (\<lambda>node. Inr (points ! node))
                  (filter (\<lambda>node. is_descendant ah T cell level (finest_cell ah T angles node)) nodes))"
proof -
  let ?f = "finest_cell ah T angles"
  let ?B = "\<lambda>c. length (filter (\<lambda>n. ?f n < c) nodes)"
  let ?D = "numCellsInLevel ah (T - level)"
  let ?b = "first_descendant ah T cell level"
  let ?ps = "m_prefix_sums layer"
  let ?n = "length (filter (\<lambda>n. ?b \<le> ?f n \<and> ?f n < ?b + ?D) nodes)"
  note facts = RadiusLayer_ctor_facts[OF ctor]
  note idx = query_indices[OF lvl hc]
  have n_eq: "?n = ?B (?b + ?D) - ?B ?b"
    by (rule filter_range_diff[symmetric]) simp
  have top: "?B (?b + ?D) \<le> length (m_points layer)" using facts(4) by simp
  have mono: "?B ?b \<le> ?B (?b + ?D)" by (rule filter_less_mono) simp
  have psb: "?ps ! ?b = ?B ?b" using facts(3) idx(5) by simp
  have blen: "?b < length ?ps" using facts(2) idx(5,6) by simp
  have kth: "kthPoint ah layer cell level (int k) = Inr (m_points layer ! (?B ?b + k))"
    if "k < ?n" for k
  proof -
    have "?B ?b + k < length (m_points layer)" using that n_eq top mono by linarith
    then show ?thesis
      using lvl idx(1) blen psb
      by (simp add: kthPoint_def cell_in_level_def facts(1) Let_def first_descendant_def
            nat_add_distrib flip: of_nat_add)
  qed
  have "map (\<lambda>k. kthPoint ah layer cell level (int k)) [0..<?n] =
        map (\<lambda>k. Inr (m_points layer ! (?B ?b + k))) [0..<?n]"
    using kth by simp
  also have "\<dots> = map Inr (take ?n (drop (?B ?b) (m_points layer)))"
  proof (rule nth_equalityI)
    show "length (map (\<lambda>k. Inr (m_points layer ! (?B ?b + k)) :: error + 'c) [0..<?n]) =
          length (map Inr (take ?n (drop (?B ?b) (m_points layer))) :: (error + 'c) list)"
      using n_eq top mono by simp
  next
    fix i
    assume "i < length (map (\<lambda>k. Inr (m_points layer ! (?B ?b + k)) :: error + 'c) [0..<?n])"
    then have i: "i < ?n" by simp
    then have "?B ?b + i < length (m_points layer)" using n_eq top mono by linarith
    with i show "map (\<lambda>k. Inr (m_points layer ! (?B ?b + k)) :: error + 'c) [0..<?n] ! i =
          map Inr (take ?n (drop (?B ?b) (m_points layer))) ! i"
      by simp
  qed
  also have "take ?n (drop (?B ?b) (m_points layer)) =
             map (\<lambda>node. points ! node) (concat (map (\<lambda>c. filter (\<lambda>n. ?f n = c) nodes) [?b..<?b + ?D]))"
    unfolding n_eq
    using slices_concat[OF facts(4), of "numCellsInLevel ah T" ?f points ?b "?b + ?D"] facts(5) idx(5)
    by simp
  finally have "mset (map (\<lambda>k. kthPoint ah layer cell level (int k)) [0..<?n]) =
        image_mset (\<lambda>node. Inr (points ! node))
          (mset (concat (map (\<lambda>c. filter (\<lambda>n. ?f n = c) nodes) [?b..<?b + ?D])))"
    by (simp add: comp_def flip: mset_map)
  also have "\<dots> = mset (map (\<lambda>node. Inr (points ! node))
                  (filter (\<lambda>node. is_descendant ah T cell level (?f node)) nodes))"
    unfolding mset_concat_cells by (simp add: is_descendant_def)
  finally have enum: "mset (map (\<lambda>k. kthPoint ah layer cell level (int k)) [0..<?n]) =
      mset (map (\<lambda>node. Inr (points ! node))
                  (filter (\<lambda>node. is_descendant ah T cell level (?f node)) nodes))" .
  have "pointsInCell ah layer cell level = Inr (int (?B (?b + ?D)) - int (?B ?b))"
    by (rule pointsInCell_prefix_difference[OF ctor lvl hc])
  then have "pointsInCell ah layer cell level = Inr (int ?n)"
    using n_eq mono by simp
  with enum show ?thesis by blast
qed

theorem kthPoint_enumerates_descendants_witness:
  "RadiusLayer_ctor scenario_hierarchy 0 () () 2 [0, 1, 2, 3] [0, 0, 1, 2] [10, 11, 12, 13]
     = Inr scenario_layer \<and>
   cell_in_level scenario_hierarchy 2 1 1 \<and> hierarchy_contract scenario_hierarchy 2 1 1 \<and>
   (\<exists>n. pointsInCell scenario_hierarchy scenario_layer 1 1 = Inr (int n) \<and>
      mset (map (\<lambda>k. kthPoint scenario_hierarchy scenario_layer 1 1 (int k)) [0..<n]) =
      mset [Inr 10, Inr 11, Inr 12]) \<and>
   kthPoint scenario_hierarchy scenario_layer 1 1 0 = Inr 10 \<and>
   kthPoint scenario_hierarchy scenario_layer 1 1 1 = Inr 11 \<and>
   kthPoint scenario_hierarchy scenario_layer 1 1 2 = Inr 12"
proof -
  have c: "RadiusLayer_ctor scenario_hierarchy (0::nat) () () 2 [0, 1, 2, 3] [0, 0, 1, 2] [10, 11, 12, 13]
             = Inr scenario_layer"
    by (simp add: RadiusLayer_ctor_def scenario_hierarchy_def scenario_layer_def eval_nat_numeral)
  have l: "cell_in_level scenario_hierarchy 2 1 1"
    by (simp add: cell_in_level_def scenario_hierarchy_def)
  have h: "hierarchy_contract scenario_hierarchy 2 1 1"
    by (simp add: hierarchy_contract_def first_descendant_def scenario_hierarchy_def)
  have e: "\<exists>n. pointsInCell scenario_hierarchy scenario_layer 1 1 = Inr (int n) \<and>
      mset (map (\<lambda>k. kthPoint scenario_hierarchy scenario_layer 1 1 (int k)) [0..<n]) =
      mset [Inr 10, Inr 11, Inr 12]"
    using kthPoint_enumerates_descendants[OF c l h]
    by (simp add: is_descendant_def first_descendant_def finest_cell_def scenario_hierarchy_def)
  have k: "kthPoint scenario_hierarchy scenario_layer 1 1 0 = Inr 10"
    "kthPoint scenario_hierarchy scenario_layer 1 1 1 = Inr 11"
    "kthPoint scenario_hierarchy scenario_layer 1 1 2 = Inr 12"
    by (simp_all add: kthPoint_def scenario_hierarchy_def scenario_layer_def u32_def)
  show ?thesis using c l h e k by blast
qed


section \<open>Properties of edge sampling\<close>

subsection \<open>The two minimum searches\<close>

lemma block_size_value: "block_size = 1048576"
  by (simp add: block_size_def)

lemma first_min_Nil: "first_min d [] = None"
  by (simp add: first_min_def)

lemma min_element_from_first_min:
  "first_min d (s # xs) = Some (min_element_from (\<lambda>a b. d a < d b) s xs)"
proof (induction xs arbitrary: s)
  case Nil
  show ?case by (simp add: first_min_def)
next
  case (Cons x xs)
  define s' where "s' = (if d x < d s then x else s)"
  define P where "P = (\<lambda>z. \<forall>y\<in>set (s # x # xs). d z \<le> d y)"
  have PQ: "P z \<longleftrightarrow> (\<forall>y\<in>set (s' # xs). d z \<le> d y)" for z
    unfolding P_def s'_def by auto
  have "find P (s # x # xs) = find P (s' # xs)"
  proof (cases "d x < d s")
    case True
    then have "\<not> P s" unfolding P_def by auto
    then show ?thesis using True by (simp add: s'_def)
  next
    case False
    show ?thesis
    proof (cases "P s")
      case True
      then show ?thesis using False by (simp add: s'_def)
    next
      case nPs: False
      have "\<not> P x"
      proof
        assume Px: "P x"
        then have "d x \<le> d s" unfolding P_def by simp
        with False have "d x = d s" by simp
        with Px have "P s" unfolding P_def by simp
        with nPs show False by simp
      qed
      then show ?thesis using False nPs by (simp add: s'_def)
    qed
  qed
  also have "\<dots> = find (\<lambda>z. \<forall>y\<in>set (s' # xs). d z \<le> d y) (s' # xs)"
    using PQ by (intro find_cong) auto
  also have "\<dots> = Some (min_element_from (\<lambda>a b. d a < d b) s' xs)"
    using Cons.IH[of s'] by (simp only: first_min_def)
  finally show ?case by (simp add: first_min_def P_def s'_def)
qed

lemma min_element_nearest:
  "min_element (\<lambda>a b. d a < d b) xs = first_min d xs"
  by (cases xs) (simp_all add: min_element_def first_min_Nil min_element_from_first_min)

lemma min_element_from_skip:
  "\<not> eq s N \<Longrightarrow>
   min_element_from (\<lambda>a b. if eq a N then False else if eq b N then True else d a < d b) s xs =
   min_element_from (\<lambda>a b. d a < d b) s (filter (\<lambda>t. \<not> eq t N) xs)"
  by (induction xs arbitrary: s) auto

lemma min_element_from_start:
  "eq s N \<Longrightarrow>
   min_element_from (\<lambda>a b. if eq a N then False else if eq b N then True else d a < d b) s xs =
   (case filter (\<lambda>t. \<not> eq t N) xs of [] \<Rightarrow> s
    | y # ys \<Rightarrow> min_element_from (\<lambda>a b. d a < d b) y ys)"
  by (induction xs arbitrary: s) (auto simp: min_element_from_skip)

lemma min_element_second:
  assumes "xs \<noteq> []"
  shows "min_element (\<lambda>a b. if eq a N then False else if eq b N then True else d a < d b) xs =
         Some (case first_min d (filter (\<lambda>t. \<not> eq t N) xs) of Some s \<Rightarrow> s | None \<Rightarrow> hd xs)"
proof -
  from assms obtain x rest where xs: "xs = x # rest" by (cases xs) auto
  show ?thesis
  proof (cases "eq x N")
    case True
    then show ?thesis
      by (cases "filter (\<lambda>t. \<not> eq t N) rest")
         (simp_all add: xs min_element_def min_element_from_start first_min_Nil
            min_element_from_first_min)
  next
    case False
    then show ?thesis
      by (simp add: xs min_element_def min_element_from_skip min_element_from_first_min)
  qed
qed

lemma first_min_Some: "xs \<noteq> [] \<Longrightarrow> \<exists>x. first_min d xs = Some x"
  by (cases xs) (simp_all add: min_element_from_first_min)

lemma mset_concat_update:
  "i < length xs \<Longrightarrow> mset (concat (xs[i := ys])) + mset (xs ! i) = mset (concat xs) + mset ys"
proof (induction xs arbitrary: i)
  case Nil
  then show ?case by simp
next
  case (Cons x xs)
  show ?case
  proof (cases i)
    case 0
    then show ?thesis by simp
  next
    case (Suc j)
    with Cons.prems have "j < length xs" by simp
    from Cons.IH[OF this] show ?thesis using Suc by (simp add: ac_simps)
  qed
qed

lemma addEdge_collects:
  assumes "tid < length (local_edges st)"
  shows "\<exists>st'. addEdge u v tid st = Inr st' \<and>
           length (local_edges st') = length (local_edges st) \<and>
           all_edges st' = all_edges st + {#canonicalize (u, v)#}"
proof -
  let ?e = "if u > v then (v, u) else (u, v)"
  let ?local = "local_edges st ! tid @ [?e]"
  have e: "?e = canonicalize (u, v)" by (simp add: canonicalize_def)
  have a: "mset (concat ((local_edges st)[tid := []])) + mset (local_edges st ! tid) =
           mset (concat (local_edges st))"
    using mset_concat_update[OF assms, of "[]"] by simp
  have b: "mset (concat ((local_edges st)[tid := ?local])) + mset (local_edges st ! tid) =
           mset (concat (local_edges st)) + mset ?local"
    by (rule mset_concat_update[OF assms])
  show ?thesis
  proof (cases "length ?local = block_size")
    case True
    have "all_edges ((flush ?local st)\<lparr>local_edges := (local_edges st)[tid := []]\<rparr>) =
          mset (result st) + (mset (concat ((local_edges st)[tid := []])) + mset (local_edges st ! tid))
          + {#?e#}"
      by (simp add: all_edges_def flush_def)
    then have "all_edges ((flush ?local st)\<lparr>local_edges := (local_edges st)[tid := []]\<rparr>) =
          all_edges st + {#canonicalize (u, v)#}"
      unfolding a e by (simp add: all_edges_def)
    then show ?thesis using assms True by (simp add: addEdge_def Let_def flush_def)
  next
    case False
    have "all_edges (st\<lparr>local_edges := (local_edges st)[tid := ?local]\<rparr>) + mset (local_edges st ! tid) =
          mset (result st) + (mset (concat ((local_edges st)[tid := ?local])) + mset (local_edges st ! tid))"
      by (simp add: all_edges_def)
    also have "\<dots> = all_edges st + {#?e#} + mset (local_edges st ! tid)"
      unfolding b by (simp add: all_edges_def)
    finally have "all_edges (st\<lparr>local_edges := (local_edges st)[tid := ?local]\<rparr>) =
          all_edges st + {#canonicalize (u, v)#}"
      unfolding e by simp
    then show ?thesis using assms False by (simp add: addEdge_def Let_def)
  qed
qed

lemma clause_body_collects:
  assumes nc: "nc_nodes \<noteq> []" and tid: "threadId < length (local_edges st)"
  shows "\<exists>st'. clause_body wd eq nc_nodes debugMode clauseIndex threadId cp st = Inr st' \<and>
           length (local_edges st') = length (local_edges st) \<and>
           all_edges st' = all_edges st + mset (source_edges wd eq nc_nodes debugMode clauseIndex cp)"
proof -
  from first_min_Some[OF nc] obtain nearest where
    n: "first_min (\<lambda>t. wd t cp) nc_nodes = Some nearest" by blast
  define second where "second =
    (case first_min (\<lambda>t. wd t cp) (filter (\<lambda>t. \<not> eq t nearest) nc_nodes) of
       Some s \<Rightarrow> s | None \<Rightarrow> hd nc_nodes)"
  have m1: "min_element (\<lambda>a b. wd a cp < wd b cp) nc_nodes = Some nearest"
    using n by (simp add: min_element_nearest)
  have m2: "min_element (\<lambda>a b. if eq a nearest then False else if eq b nearest then True
                               else wd a cp < wd b cp) nc_nodes = Some second"
    unfolding second_def by (rule min_element_second[OF nc])
  have se: "source_edges wd eq nc_nodes debugMode clauseIndex cp =
        (if debugMode
         then [canonicalize (index nearest, int (length nc_nodes) + int clauseIndex),
               canonicalize (index second, int (length nc_nodes) + int clauseIndex)]
         else [canonicalize (index nearest, index second)])"
    by (simp add: source_edges_def spec_nearest_def spec_second_nearest_def n second_def)
  show ?thesis
  proof (cases debugMode)
    case True
    from addEdge_collects[OF tid, of "index nearest" "int (length nc_nodes) + int clauseIndex"]
    obtain st1 where 1: "addEdge (index nearest) (int (length nc_nodes) + int clauseIndex) threadId st = Inr st1"
      "length (local_edges st1) = length (local_edges st)"
      "all_edges st1 = all_edges st + {#canonicalize (index nearest, int (length nc_nodes) + int clauseIndex)#}"
      by blast
    from 1(2) tid have "threadId < length (local_edges st1)" by simp
    from addEdge_collects[OF this, of "index second" "int (length nc_nodes) + int clauseIndex"]
    obtain st2 where 2: "addEdge (index second) (int (length nc_nodes) + int clauseIndex) threadId st1 = Inr st2"
      "length (local_edges st2) = length (local_edges st1)"
      "all_edges st2 = all_edges st1 + {#canonicalize (index second, int (length nc_nodes) + int clauseIndex)#}"
      by blast
    have "clause_body wd eq nc_nodes debugMode clauseIndex threadId cp st = Inr st2"
      using True 1(1) 2(1) by (simp add: clause_body_def m1 m2)
    then show ?thesis unfolding se using 1 2 True by simp
  next
    case False
    from addEdge_collects[OF tid, of "index nearest" "index second"]
    obtain st1 where 1: "addEdge (index nearest) (index second) threadId st = Inr st1"
      "length (local_edges st1) = length (local_edges st)"
      "all_edges st1 = all_edges st + {#canonicalize (index nearest, index second)#}"
      by blast
    have "clause_body wd eq nc_nodes debugMode clauseIndex threadId cp st = Inr st1"
      using False 1(1) by (simp add: clause_body_def m1 m2)
    then show ?thesis unfolding se using 1 False by simp
  qed
qed

lemma clause_loop_collects:
  assumes nc: "nc_nodes \<noteq> []"
    and ok: "\<forall>(i, t)\<in>set sched. i < length c_nodes \<and> t < length (local_edges st)"
  shows "\<exists>st'. clause_loop wd eq c_nodes nc_nodes debugMode sched st = Inr st' \<and>
           length (local_edges st') = length (local_edges st) \<and>
           all_edges st' = all_edges st +
             mset (concat (map (\<lambda>i. source_edges wd eq nc_nodes debugMode i (c_nodes ! i))
                            (map fst sched)))"
  using ok
proof (induction sched arbitrary: st)
  case Nil
  then show ?case by simp
next
  case (Cons p sched)
  obtain i t where p: "p = (i, t)" by (cases p)
  from Cons.prems p have i: "i < length c_nodes" and t: "t < length (local_edges st)" by auto
  from clause_body_collects[OF nc t, of wd eq debugMode i "c_nodes ! i"]
  obtain st1 where 1: "clause_body wd eq nc_nodes debugMode i t (c_nodes ! i) st = Inr st1"
    "length (local_edges st1) = length (local_edges st)"
    "all_edges st1 = all_edges st + mset (source_edges wd eq nc_nodes debugMode i (c_nodes ! i))"
    by blast
  have "\<forall>(i, t)\<in>set sched. i < length c_nodes \<and> t < length (local_edges st1)"
    using Cons.prems 1(2) by auto
  from Cons.IH[OF this] obtain st2 where 2:
    "clause_loop wd eq c_nodes nc_nodes debugMode sched st1 = Inr st2"
    "length (local_edges st2) = length (local_edges st1)"
    "all_edges st2 = all_edges st1 +
       mset (concat (map (\<lambda>i. source_edges wd eq nc_nodes debugMode i (c_nodes ! i)) (map fst sched)))"
    by blast
  have "clause_loop wd eq c_nodes nc_nodes debugMode (p # sched) st = Inr st2"
    using i 1(1) 2(1) by (simp add: p)
  then show ?case using 1 2 by (simp add: p)
qed

lemma fold_flush_result: "result (fold flush ls st) = result st @ concat ls"
  by (induction ls arbitrary: st) (simp_all add: flush_def)

lemma mset_concat_map_perm:
  assumes "mset xs = mset ys"
  shows "mset (concat (map f xs)) = mset (concat (map f ys))"
proof -
  have "mset (concat (map f zs)) = (\<Sum>x\<in>#mset zs. mset (f x))" for zs
    by (induction zs) simp_all
  then show ?thesis using assms by simp
qed

lemma is_schedule_bounds:
  assumes "is_schedule n max_threads sched"
  shows "\<forall>(i, t)\<in>set sched. i < n \<and> t < max_threads"
proof -
  from assms have m: "mset (map fst sched) = mset [0..<n]"
    and t: "\<forall>(i, t)\<in>set sched. t < max_threads"
    by (simp_all add: is_schedule_def)
  have s: "fst ` set sched = {0..<n}" using mset_eq_setD[OF m] by simp
  have "fst p < n" if "p \<in> set sched" for p
    using that s by (metis atLeastLessThan_iff imageI)
  with t show ?thesis by auto
qed

lemma generateEdges_collects:
  assumes nc: "nc_nodes \<noteq> []"
    and sched: "is_schedule (length c_nodes) max_threads sched"
  shows "\<exists>es. generateEdges wd eq max_threads sched c_nodes nc_nodes debugMode = Inr es \<and>
           mset es = mset (concat (map (\<lambda>i. source_edges wd eq nc_nodes debugMode i (c_nodes ! i))
                                    [0..<length c_nodes]))"
proof -
  let ?st0 = "\<lparr>result = [], local_edges = replicate max_threads []\<rparr>"
  have ok: "\<forall>(i, t)\<in>set sched. i < length c_nodes \<and> t < length (local_edges ?st0)"
    using is_schedule_bounds[OF sched] by simp
  from clause_loop_collects[OF nc ok, of wd eq debugMode] obtain st where st:
    "clause_loop wd eq c_nodes nc_nodes debugMode sched ?st0 = Inr st"
    "all_edges st = all_edges ?st0 +
       mset (concat (map (\<lambda>i. source_edges wd eq nc_nodes debugMode i (c_nodes ! i)) (map fst sched)))"
    by blast
  have perm: "mset (map fst sched) = mset [0..<length c_nodes]"
    using sched by (simp add: is_schedule_def)
  have "generateEdges wd eq max_threads sched c_nodes nc_nodes debugMode =
        Inr (result st @ concat (local_edges st))"
    by (simp add: generateEdges_def st(1) fold_flush_result)
  moreover have "mset (result st @ concat (local_edges st)) = all_edges st"
    by (simp add: all_edges_def)
  moreover have "all_edges ?st0 = {#}" by (simp add: all_edges_def)
  ultimately show ?thesis
    using st(2) mset_concat_map_perm[OF perm] by simp
qed

lemma first_min_in_set: "first_min d xs = Some x \<Longrightarrow> x \<in> set xs"
  by (auto simp: first_min_def find_Some_iff)

lemma first_min_is_first_minimum:
  assumes "first_min d xs = Some x"
  shows "\<exists>i<length xs. xs ! i = x \<and> (\<forall>y\<in>set xs. d x \<le> d y) \<and> (\<forall>j<i. d x < d (xs ! j))"
proof -
  from assms obtain i where i: "i < length xs" "xs ! i = x" "\<forall>y\<in>set xs. d x \<le> d y"
    and before: "\<forall>j<i. \<not> (\<forall>y\<in>set xs. d (xs ! j) \<le> d y)"
    unfolding first_min_def find_Some_iff by blast
  have "d x < d (xs ! j)" if "j < i" for j
  proof (rule ccontr)
    assume "\<not> d x < d (xs ! j)"
    then have "d (xs ! j) \<le> d x" by simp
    with i(3) have "\<forall>y\<in>set xs. d (xs ! j) \<le> d y" by (meson order_trans)
    with before that show False by blast
  qed
  with i show ?thesis by blast
qed

lemma source_edges_canonical:
  "e \<in> set (source_edges wd eq nc_nodes debugMode i cp) \<Longrightarrow> fst e \<le> snd e"
  by (auto simp: source_edges_def canonicalize_def Let_def split: option.splits if_splits)

lemma canonicalize_no_loop:
  "a \<noteq> b \<Longrightarrow> fst (canonicalize (a, b)) \<noteq> snd (canonicalize (a, b))"
  by (simp add: canonicalize_def min_def max_def)

lemma source_edges_no_loop:
  assumes nc: "nc_nodes \<noteq> []"
    and sep: "targets_separate eq nc_nodes debugMode"
    and e: "e \<in> set (source_edges wd eq nc_nodes debugMode i cp)"
  shows "fst e \<noteq> snd e"
proof -
  from first_min_Some[OF nc] obtain nearest where
    n: "first_min (\<lambda>t. wd t cp) nc_nodes = Some nearest" by blast
  then have n_in: "nearest \<in> set nc_nodes" by (rule first_min_in_set)
  define second where "second =
    (case first_min (\<lambda>t. wd t cp) (filter (\<lambda>t. \<not> eq t nearest) nc_nodes) of
       Some s \<Rightarrow> s | None \<Rightarrow> hd nc_nodes)"
  have se: "source_edges wd eq nc_nodes debugMode i cp =
        (if debugMode
         then [canonicalize (index nearest, int (length nc_nodes) + int i),
               canonicalize (index second, int (length nc_nodes) + int i)]
         else [canonicalize (index nearest, index second)])"
    by (simp add: source_edges_def spec_nearest_def spec_second_nearest_def n second_def)
  have s_in: "second \<in> set nc_nodes"
  proof (cases "first_min (\<lambda>t. wd t cp) (filter (\<lambda>t. \<not> eq t nearest) nc_nodes)")
    case None
    then show ?thesis using nc by (simp add: second_def)
  next
    case (Some s)
    from first_min_in_set[OF this] show ?thesis using Some by (simp add: second_def)
  qed
  show ?thesis
  proof (cases debugMode)
    case True
    with sep have "\<forall>t\<in>set nc_nodes. index t < int (length nc_nodes)"
      by (simp add: targets_separate_def)
    with n_in s_in have "index nearest \<noteq> int (length nc_nodes) + int i"
      "index second \<noteq> int (length nc_nodes) + int i" by fastforce+
    then show ?thesis using e True canonicalize_no_loop unfolding se by auto
  next
    case False
    with sep have len: "2 \<le> length nc_nodes" and dist: "distinct (map index nc_nodes)"
      and eq: "\<forall>a\<in>set nc_nodes. \<forall>b\<in>set nc_nodes. eq a b \<longleftrightarrow> index a = index b"
      by (simp_all add: targets_separate_def)
    from len obtain a b rest where abc: "nc_nodes = a # b # rest"
      by (cases nc_nodes; cases "tl nc_nodes") auto
    with dist have "index a \<noteq> index b" by auto
    then have "\<exists>t\<in>set nc_nodes. index t \<noteq> index nearest" using abc by auto
    then obtain t where t: "t \<in> set nc_nodes" "\<not> eq t nearest" using eq n_in by blast
    then have "filter (\<lambda>t. \<not> eq t nearest) nc_nodes \<noteq> []"
      by (auto simp: filter_empty_conv)
    from first_min_Some[OF this] obtain s where
      s: "first_min (\<lambda>t. wd t cp) (filter (\<lambda>t. \<not> eq t nearest) nc_nodes) = Some s" by blast
    from first_min_in_set[OF s] have "s \<in> set nc_nodes" "\<not> eq s nearest" by auto
    with eq n_in have "index s \<noteq> index nearest" by blast
    moreover have "second = s" using s by (simp add: second_def)
    ultimately show ?thesis using e False canonicalize_no_loop[of "index nearest" "index s"]
      unfolding se by auto
  qed
qed

subsection \<open>The claims on generateEdges\<close>

text \<open>
  Claim C5 (amended). For any source list, any non-empty target list, any schedule of the
  loop and either mode, \<^verbatim>\<open>generateEdges\<close> returns, and every raw edge (u, v) it returns
  satisfies \<open>u \<le> v\<close>. It satisfies \<open>u \<noteq> v\<close> as well when the targets are kept apart: in
  debug mode when every target index lies below the number of targets, in normal mode when
  there are at least two targets with pairwise distinct indices and \<^verbatim>\<open>operator==\<close> on
  targets is equality of indices.
\<close>

theorem generateEdges_edges_ordered:
  assumes nc: "nc_nodes \<noteq> []"
    and sched: "is_schedule (length c_nodes) max_threads sched"
  shows "\<exists>es. generateEdges wd eq max_threads sched c_nodes nc_nodes debugMode = Inr es \<and>
           (\<forall>e\<in>set es. fst e \<le> snd e) \<and>
           (targets_separate eq nc_nodes debugMode \<longrightarrow> (\<forall>e\<in>set es. fst e \<noteq> snd e))"
proof -
  from generateEdges_collects[OF nc sched, of wd eq debugMode] obtain es where
    es: "generateEdges wd eq max_threads sched c_nodes nc_nodes debugMode = Inr es"
    and m: "mset es = mset (concat (map (\<lambda>i. source_edges wd eq nc_nodes debugMode i (c_nodes ! i))
                                    [0..<length c_nodes]))"
    by blast
  have src: "\<exists>i. e \<in> set (source_edges wd eq nc_nodes debugMode i (c_nodes ! i))"
    if "e \<in> set es" for e
    using that mset_eq_setD[OF m] by auto
  have le: "\<forall>e\<in>set es. fst e \<le> snd e"
    using src source_edges_canonical by blast
  have ne: "\<forall>e\<in>set es. fst e \<noteq> snd e" if "targets_separate eq nc_nodes debugMode"
    using src source_edges_no_loop[OF nc that] by blast
  from es le ne show ?thesis by blast
qed

theorem generateEdges_edges_ordered_witness:
  "[mk_node 30 2, mk_node 12 0, mk_node 19 1] \<noteq> [] \<and>
   is_schedule (length [mk_node 10 0, mk_node 20 1]) 2 [(0, 0), (1, 1)] \<and>
   targets_separate index_eq [mk_node 30 2, mk_node 12 0, mk_node 19 1] False \<and>
   generateEdges line_distance index_eq 2 [(0, 0), (1, 1)] [mk_node 10 0, mk_node 20 1]
     [mk_node 30 2, mk_node 12 0, mk_node 19 1] False = Inr [(0, 1), (0, 1)] \<and>
   (\<exists>es. generateEdges line_distance index_eq 2 [(0, 0), (1, 1)] [mk_node 10 0, mk_node 20 1]
           [mk_node 30 2, mk_node 12 0, mk_node 19 1] False = Inr es \<and>
      (\<forall>e\<in>set es. fst e \<le> snd e) \<and> (\<forall>e\<in>set es. fst e \<noteq> snd e))"
proof -
  have h1: "[mk_node 30 2, mk_node 12 0, mk_node 19 1] \<noteq> []" by simp
  have h2: "is_schedule (length [mk_node 10 0, mk_node 20 1]) 2 [(0, 0), (1, 1)]"
    by (simp add: is_schedule_def numeral_2_eq_2)
  have h3: "targets_separate index_eq [mk_node 30 2, mk_node 12 0, mk_node 19 1] False"
    by (simp add: targets_separate_def index_eq_def mk_node_def)
  have g: "generateEdges line_distance index_eq 2 [(0, 0), (1, 1)] [mk_node 10 0, mk_node 20 1]
     [mk_node 30 2, mk_node 12 0, mk_node 19 1] False = Inr [(0, 1), (0, 1)]"
    by (simp add: generateEdges_def clause_body_def min_element_def addEdge_def flush_def
      line_distance_def index_eq_def mk_node_def block_size_value numeral_2_eq_2)
  from generateEdges_edges_ordered[OF h1 h2, of line_distance index_eq False] h1 h2 h3 g
  show ?thesis by blast
qed

text \<open>
  Claim C5 as the specification states it fails on the code: with a single target, normal
  mode emits the edge from the target to itself.
\<close>

theorem generateEdges_self_loop_counterexample:
  "generateEdges line_distance index_eq 1 [(0, 0)] [mk_node 3 0] [mk_node 4 0] False = Inr [(0, 0)]"
  by (simp add: generateEdges_def clause_body_def min_element_def addEdge_def flush_def
      line_distance_def index_eq_def mk_node_def block_size_value)

text \<open>
  Claim C8 (amended). For every source list, every non-empty target list and every
  schedule of the loop, \<^verbatim>\<open>generateEdges\<close> returns, and the multiset of the edges it
  returns is the union over the sources of the edges each source contributes
  (\<open>source_edges\<close>): the nearest target is the first target of minimum weighted
  distance; the second nearest is the first minimum among the targets that are not equal
  to the nearest, and the first target when there is no such target; in debug mode a
  source contributes the two edges from the nearest and from the second nearest to
  \<open>targetCount + sourceRank\<close>, in normal mode the single edge between the nearest and
  the second nearest; every edge is stored with the smaller endpoint first.
\<close>

theorem generateEdges_union_of_sources:
  assumes "nc_nodes \<noteq> []"
    and "is_schedule (length c_nodes) max_threads sched"
  shows "\<exists>es. generateEdges wd eq max_threads sched c_nodes nc_nodes debugMode = Inr es \<and>
           mset es = mset (concat (map (\<lambda>i. source_edges wd eq nc_nodes debugMode i (c_nodes ! i))
                                    [0..<length c_nodes]))"
  using generateEdges_collects[OF assms] by blast

theorem generateEdges_union_of_sources_witness:
  "[mk_node 30 2, mk_node 12 0, mk_node 19 1] \<noteq> [] \<and>
   is_schedule (length [mk_node 10 0, mk_node 20 1]) 2 [(1, 1), (0, 0)] \<and>
   generateEdges line_distance index_eq 2 [(1, 1), (0, 0)] [mk_node 10 0, mk_node 20 1]
     [mk_node 30 2, mk_node 12 0, mk_node 19 1] True = Inr [(0, 3), (1, 3), (1, 4), (0, 4)] \<and>
   source_edges line_distance index_eq [mk_node 30 2, mk_node 12 0, mk_node 19 1] True 0 (mk_node 10 0)
     = [(0, 3), (1, 3)] \<and>
   source_edges line_distance index_eq [mk_node 30 2, mk_node 12 0, mk_node 19 1] True 1 (mk_node 20 1)
     = [(1, 4), (0, 4)] \<and>
   (\<exists>es. generateEdges line_distance index_eq 2 [(1, 1), (0, 0)] [mk_node 10 0, mk_node 20 1]
           [mk_node 30 2, mk_node 12 0, mk_node 19 1] True = Inr es \<and>
      mset es = mset (concat (map (\<lambda>i. source_edges line_distance index_eq
                                      [mk_node 30 2, mk_node 12 0, mk_node 19 1] True i
                                      ([mk_node 10 0, mk_node 20 1] ! i))
                               [0..<length [mk_node 10 0, mk_node 20 1]])))"
proof -
  have h1: "[mk_node 30 2, mk_node 12 0, mk_node 19 1] \<noteq> []" by simp
  have h2: "is_schedule (length [mk_node 10 0, mk_node 20 1]) 2 [(1, 1), (0, 0)]"
    by (simp add: is_schedule_def numeral_2_eq_2)
  have g: "generateEdges line_distance index_eq 2 [(1, 1), (0, 0)] [mk_node 10 0, mk_node 20 1]
     [mk_node 30 2, mk_node 12 0, mk_node 19 1] True = Inr [(0, 3), (1, 3), (1, 4), (0, 4)]"
    by (simp add: generateEdges_def clause_body_def min_element_def addEdge_def flush_def
      line_distance_def index_eq_def mk_node_def block_size_value numeral_2_eq_2)
  have s: "source_edges line_distance index_eq [mk_node 30 2, mk_node 12 0, mk_node 19 1] True 0 (mk_node 10 0)
     = [(0, 3), (1, 3)]"
    "source_edges line_distance index_eq [mk_node 30 2, mk_node 12 0, mk_node 19 1] True 1 (mk_node 20 1)
     = [(1, 4), (0, 4)]"
    by (simp_all add: source_edges_def spec_nearest_def spec_second_nearest_def first_min_def
          canonicalize_def line_distance_def index_eq_def mk_node_def)
  from generateEdges_union_of_sources[OF h1 h2, of line_distance index_eq True] h1 h2 g s
  show ?thesis by blast
qed

text \<open>
  Claim C8 as the specification states it fails on the code. With a single target no
  target remains beside the nearest, and the code emits the edge (5, 5) all the same.
  With the nearest target of index 7 and the second nearest of index 2, the code emits
  (2, 7), not (7, 2).
\<close>

theorem generateEdges_second_nearest_counterexample:
  "generateEdges line_distance index_eq 1 [(0, 0)] [mk_node 10 0] [mk_node 12 5] False = Inr [(5, 5)] \<and>
   spec_nearest line_distance [mk_node 12 5] (mk_node 10 0) = Some (mk_node 12 5) \<and>
   spec_second_nearest line_distance index_eq [mk_node 12 5] (mk_node 10 0) (mk_node 12 5) = None \<and>
   generateEdges line_distance index_eq 1 [(0, 0)] [mk_node 10 0] [mk_node 11 7, mk_node 15 2] False
     = Inr [(2, 7)] \<and>
   spec_nearest line_distance [mk_node 11 7, mk_node 15 2] (mk_node 10 0) = Some (mk_node 11 7) \<and>
   spec_second_nearest line_distance index_eq [mk_node 11 7, mk_node 15 2] (mk_node 10 0) (mk_node 11 7)
     = Some (mk_node 15 2) \<and>
   (index (mk_node 11 7), index (mk_node 15 2)) \<noteq> (2, 7)"
  by (simp add: generateEdges_def clause_body_def min_element_def addEdge_def flush_def
      line_distance_def index_eq_def mk_node_def block_size_value
      spec_nearest_def spec_second_nearest_def first_min_def)


section \<open>Properties of sampling\<close>

lemma weights_loop_single_thread:
  "weights_loop lib env1 1 n ple iterations gens res =
   weights_loop lib env2 1 n ple iterations gens res"
  by (induction iterations arbitrary: gens res) simp_all

lemma positions_loop_single_thread:
  "positions_loop lib env1 1 n dimension iterations gens res =
   positions_loop lib env2 1 n dimension iterations gens res"
  by (induction iterations arbitrary: gens res) simp_all

lemma thread_engines_seeded:
  "0 \<le> seed \<Longrightarrow> thread_engines lib env1 seed threads = thread_engines lib env2 seed threads"
  by (simp add: thread_engines_def)

lemma weights_loop_length:
  "length (weights_loop lib env threads n ple iterations gens res) = length res"
  by (induction iterations arbitrary: gens res) (simp_all add: Let_def split: prod.splits)

lemma positions_loop_length:
  "length (positions_loop lib env threads n dimension iterations gens res) = length res"
  by (induction iterations arbitrary: gens res) (simp_all add: Let_def split: prod.splits)

lemma generateWeights_returns:
  "0 \<le> n \<Longrightarrow> \<exists>ws. generateWeights lib env n ple seed parallel = Inr ws \<and> length ws = nat n"
  by (simp add: generateWeights_def Let_def weights_loop_length)

lemma generatePositions_returns:
  "0 \<le> n \<Longrightarrow> 0 \<le> dimension \<Longrightarrow>
   \<exists>ps. generatePositions lib env n dimension seed parallel = Inr ps \<and> length ps = nat n"
  by (simp add: generatePositions_def Let_def positions_loop_length)

lemma thread_engines_single:
  "thread_engines lib env seed (Suc 0) =
   [seed_engine lib (if seed \<ge> 0 then nat (seed mod 2 ^ 32) else random_device env 0)]"
  by (simp add: thread_engines_def)

lemma upt_0_3: "[0..<3] = [0, 1, 2]"
  by (simp add: numeral_3_eq_3 numeral_2_eq_2)

lemma upt_0_2: "[0..<2] = [0, 1]"
  by (simp add: numeral_2_eq_2)

lemma replicate_3: "replicate 3 x = [x, x, x]"
  by (simp add: numeral_3_eq_3)

lemma replicate_2: "replicate 2 x = [x, x]"
  by (simp add: numeral_2_eq_2)

text \<open>
  Without a seed the output does depend on the run: the model does not make sampling
  deterministic by construction.
\<close>

lemma generateWeights_unseeded_depends_on_run:
  "generateWeights example_library first_run 3 2 (- 1) False = Inr [9, 11, 7] \<and>
   generateWeights example_library second_run 3 2 (- 1) False = Inr [5, 5, 5]"
  by (simp add: generateWeights_def sampling_threads_def thread_engines_single example_library_def
        first_run_def second_run_def upt_0_3 replicate_3)

text \<open>
  Claim C9. For every \<open>n\<close>, \<open>ple\<close> and non-negative seed, two runs of
  \<^verbatim>\<open>generateWeights\<close> with the same \<open>n\<close>, \<open>ple\<close> and seed and with
  \<^verbatim>\<open>parallel = false\<close> give the same output, whatever the two runs get from the OpenMP
  runtime and the random device; likewise for \<^verbatim>\<open>generatePositions\<close> with the same
  \<open>n\<close>, dimension and seed.
\<close>

theorem sampling_deterministic:
  assumes "0 \<le> seed"
  shows "generateWeights lib env1 n ple seed False = generateWeights lib env2 n ple seed False \<and>
         generatePositions lib env1 n dimension seed False =
         generatePositions lib env2 n dimension seed False"
proof
  have t: "sampling_threads env1 n False = 1" "sampling_threads env2 n False = 1"
    by (simp_all add: sampling_threads_def)
  show "generateWeights lib env1 n ple seed False = generateWeights lib env2 n ple seed False"
    unfolding generateWeights_def Let_def t
    using thread_engines_seeded[OF assms, of lib env1 1 env2]
      weights_loop_single_thread[of lib env1 n ple _ _ _ env2]
    by simp
  show "generatePositions lib env1 n dimension seed False =
        generatePositions lib env2 n dimension seed False"
    unfolding generatePositions_def Let_def t
    using thread_engines_seeded[OF assms, of lib env1 1 env2]
      positions_loop_single_thread[of lib env1 n dimension _ _ _ env2]
    by simp
qed

theorem sampling_deterministic_witness:
  "(0::int) \<le> 42 \<and>
   generateWeights example_library first_run 3 2 42 False = Inr [3, 9, 11] \<and>
   generateWeights example_library second_run 3 2 42 False = Inr [3, 9, 11] \<and>
   generatePositions example_library first_run 3 2 42 False = Inr [[0, 3], [4, 2], [6, 5]] \<and>
   generatePositions example_library second_run 3 2 42 False = Inr [[0, 3], [4, 2], [6, 5]]"
proof -
  have h: "(0::int) \<le> 42" by simp
  have w: "generateWeights example_library second_run 3 2 42 False = Inr [3, 9, 11]"
    by (simp add: generateWeights_def sampling_threads_def thread_engines_single
          example_library_def second_run_def upt_0_3 replicate_3)
  have p: "generatePositions example_library second_run 3 2 42 False = Inr [[0, 3], [4, 2], [6, 5]]"
    by (simp add: generatePositions_def sampling_threads_def thread_engines_single
          example_library_def second_run_def upt_0_2 upt_0_3 replicate_2 replicate_3)
  from sampling_deterministic[OF h, of example_library first_run 3 2 second_run 2] w p h
  show ?thesis by simp
qed


end
